theory Spec2Isabelle
  imports Main "HOL-Library.FSet"
begin

section \<open>Ranges, options, errors and flags\<close>

text \<open>
  The parser of \<^verbatim>\<open>docopt_fish.cpp\<close> keeps the usage document as one immutable string
  \<open>source\<close> and refers to it by ranges. A C++ exception (\<^verbatim>\<open>std::out_of_range\<close> of
  \<^verbatim>\<open>at\<close>, of the substring constructor and of \<^verbatim>\<open>assign\<close>) and a failed
  \<^verbatim>\<open>assert\<close> are values of type \<open>exn\<close>; a function that can raise returns
  \<open>exn + 'a\<close>. Sizes and indexes are \<open>nat\<close>: no index of the program exceeds the length
  of a string or vector it was read from, so \<^verbatim>\<open>size_t\<close> never wraps. The sentinel
  \<^verbatim>\<open>npos\<close> of an absent index is \<open>None\<close>.
\<close>

datatype exn = Out_of_range | Assertion_failed

text \<open>Sequencing of computations that can raise.\<close>

definition bind_exn :: "exn + 'a \<Rightarrow> ('a \<Rightarrow> exn + 'b) \<Rightarrow> exn + 'b" where
  "bind_exn m f = (case m of Inl e \<Rightarrow> Inl e | Inr x \<Rightarrow> f x)"

text \<open>
  Modelled from the spec: \<^verbatim>\<open>range_t\<close> of \<^verbatim>\<open>docopt_fish_types.h\<close>, the half-open range
  \<open>[start, start + length)\<close> over the doc text.
\<close>

record range_t =
  start :: nat
  length_r :: nat

definition make_range :: "nat \<Rightarrow> nat \<Rightarrow> range_t" where
  "make_range s l = \<lparr>start = s, length_r = l\<rparr>"

definition range_end :: "range_t \<Rightarrow> nat" where
  "range_end r = start r + length_r r"

definition range_empty :: "range_t \<Rightarrow> bool" where
  "range_empty r \<longleftrightarrow> length_r r = 0"

datatype type_t = single_short | single_long | double_long

datatype separator_t = sep_space | sep_equals | sep_none

text \<open>
  Modelled from the spec: the option record \<^verbatim>\<open>option_t\<close> of \<^verbatim>\<open>docopt_fish_types.h\<close>,
  with the fields the source reads (\<^verbatim>\<open>name\<close>, \<^verbatim>\<open>value\<close>, \<^verbatim>\<open>type\<close>, \<^verbatim>\<open>separator\<close>,
  \<^verbatim>\<open>description_range\<close>, \<^verbatim>\<open>default_value_range\<close>, \<^verbatim>\<open>corresponding_long_name\<close>) and the
  dash count of the data model.
\<close>

record option_t =
  name :: range_t
  value_range :: range_t
  leading_dash_count :: nat
  separator :: separator_t
  otype :: type_t
  description_range :: range_t
  default_value_range :: range_t
  corresponding_long_name :: range_t

text \<open>
  Modelled from the spec: the constructor of \<^verbatim>\<open>option_t\<close>. The type is derived from the
  dash count and the length of the name: two dashes give a double-long option, one dash
  and several characters a single-long one, one dash and one character a short one.
\<close>

definition make_option :: "range_t \<Rightarrow> range_t \<Rightarrow> nat \<Rightarrow> separator_t \<Rightarrow> option_t" where
  "make_option n v dashes sep =
     \<lparr>name = n, value_range = v, leading_dash_count = dashes, separator = sep,
      otype = (if dashes > 1 then double_long
               else if length_r n > 1 then single_long else single_short),
      description_range = make_range 0 0, default_value_range = make_range 0 0,
      corresponding_long_name = make_range 0 0\<rparr>"

definition has_value :: "option_t \<Rightarrow> bool" where
  "has_value opt \<longleftrightarrow> \<not> range_empty (value_range opt)"

text \<open>
  The substring constructor \<^verbatim>\<open>string_t(str, pos, len)\<close> and \<^verbatim>\<open>assign(str, pos, len)\<close>:
  they raise when \<open>pos\<close> is beyond the end of \<open>str\<close> and clamp \<open>len\<close> otherwise.
\<close>

definition substr :: "string \<Rightarrow> nat \<Rightarrow> nat \<Rightarrow> exn + string" where
  "substr str pos len =
     (if pos > length str then Inl Out_of_range else Inr (take len (drop pos str)))"

definition range_text :: "string \<Rightarrow> range_t \<Rightarrow> exn + string" where
  "range_text source r = substr source (start r) (length_r r)"

text \<open>
  \<^verbatim>\<open>range_equals_string\<close>: whether the range of \<open>source\<close> equals the part of \<open>str\<close>
  that starts at \<open>start_in_str\<close> and has at most \<open>len_in_str\<close> characters (\<open>None\<close> for
  the default \<^verbatim>\<open>npos\<close>). Its two assertions come first.
\<close>

definition range_equals_string ::
  "string \<Rightarrow> range_t \<Rightarrow> string \<Rightarrow> nat \<Rightarrow> nat option \<Rightarrow> exn + bool" where
  "range_equals_string source r str start_in_str len_in_str =
     (if \<not> range_end r \<le> length source then Inl Assertion_failed
      else if \<not> start_in_str \<le> length str then Inl Assertion_failed
      else
        let len = (case len_in_str of
                     None \<Rightarrow> length str - start_in_str
                   | Some l \<Rightarrow> min l (length str - start_in_str))
        in Inr (length_r r = len \<and>
                take (length_r r) (drop (start r) source) = take len (drop start_in_str str)))"

text \<open>
  \<^verbatim>\<open>std::string::compare(pos1, n1, str, pos2, n2) == 0\<close>: it raises when a position is
  beyond the end of its string and clamps the lengths otherwise.
\<close>

definition compare_eq :: "string \<Rightarrow> nat \<Rightarrow> nat \<Rightarrow> string \<Rightarrow> nat \<Rightarrow> nat \<Rightarrow> exn + bool" where
  "compare_eq s1 pos1 n1 s2 pos2 n2 =
     (if pos1 > length s1 \<or> pos2 > length s2 then Inl Out_of_range
      else Inr (take n1 (drop pos1 s1) = take n2 (drop pos2 s2)))"

text \<open>
  \<^verbatim>\<open>str_equals(a, str)\<close> and \<^verbatim>\<open>substr_equals(a, b, len)\<close> compare a string with a C
  string literal \<open>a\<close>, which holds no NUL: the first is equality, the second compares the
  first \<open>len\<close> characters and stops at the terminating NUL of \<open>a\<close>, where \<open>b\<close> has to
  hold a NUL too (its own terminator or a character NUL).
\<close>

definition str_equals :: "string \<Rightarrow> string \<Rightarrow> bool" where
  "str_equals a str \<longleftrightarrow> a = str"

fun substr_equals :: "string \<Rightarrow> string \<Rightarrow> nat \<Rightarrow> bool" where
  "substr_equals a b 0 = True"
| "substr_equals [] [] (Suc len) = True"
| "substr_equals [] (c # b) (Suc len) = (c = CHR 0x00)"
| "substr_equals (x # a) [] (Suc len) = False"
| "substr_equals (x # a) (c # b) (Suc len) = (x = c \<and> substr_equals a b len)"

text \<open>
  Modelled from the spec: the parse flags of \<^verbatim>\<open>docopt_fish.h\<close>, a bitset; \<open>flags & f\<close> of
  the source is \<open>f \<in> flags\<close>.
\<close>

datatype parse_flag =
    flag_generate_empty_args
  | flag_match_allow_incomplete
  | flag_resolve_unambiguous_prefixes
  | flag_short_options_strict_separators
  | flag_generate_suggestions

type_synonym parse_flags_t = "parse_flag set"

text \<open>
  Modelled from the spec: the diagnostic record \<^verbatim>\<open>error_t\<close> and \<^verbatim>\<open>append_error\<close> of
  \<^verbatim>\<open>docopt_fish_types.h\<close>. A diagnostic holds the position in the doc or in the argument,
  the index of the argument in argv (absent for an error of the doc), its code and its
  text; \<^verbatim>\<open>append_error\<close> adds one at the end of the list, and does nothing when the
  caller passed no list (\<open>None\<close>, the null pointer of \<^verbatim>\<open>suggest_next_argument\<close>).
\<close>

datatype error_code =
    error_excessive_dashes
  | error_excessive_equal_signs
  | error_invalid_variable_name
  | error_invalid_option_name
  | error_bad_option_separator
  | error_missing_close_bracket_in_default
  | error_option_duplicated_in_options_section
  | error_unknown_option
  | error_ambiguous_prefix_match
  | error_option_has_missing_argument
  | error_option_unexpected_argument
  | error_wrong_separator
  | error_missing_usage_section
  | error_excessive_usage_sections
  | error_one_variable_multiple_conditions

record error_t =
  location :: "nat option"
  argument_index :: "nat option"
  code :: error_code
  text_of :: string

type_synonym error_list_t = "error_t list"

definition append_error ::
  "error_list_t option \<Rightarrow> nat option \<Rightarrow> error_code \<Rightarrow> string \<Rightarrow> nat option \<Rightarrow> error_list_t option" where
  "append_error errors loc c txt arg_idx =
     (case errors of
        None \<Rightarrow> None
      | Some es \<Rightarrow> Some (es @ [\<lparr>location = loc, argument_index = arg_idx, code = c, text_of = txt\<rparr>]))"

definition append_argv_error ::
  "error_list_t option \<Rightarrow> nat \<Rightarrow> error_code \<Rightarrow> string \<Rightarrow> nat \<Rightarrow> error_list_t option" where
  "append_argv_error errors arg_idx c txt pos_in_arg =
     append_error errors (Some pos_in_arg) c txt (Some arg_idx)"

section \<open>The argv tokenizer\<close>

text \<open>
  \<^verbatim>\<open>scan_while\<close> moves the start of \<open>remaining\<close> over the characters that satisfy
  \<open>func\<close> and returns the range it moved over, with the new \<open>remaining\<close>. In the source
  the end of the result is always the start of \<open>remaining\<close>, so the loop runs while
  \<open>remaining\<close> is not empty; \<^verbatim>\<open>str.at\<close> raises beyond the end of \<open>str\<close>.
\<close>

function scan_while_loop :: "string \<Rightarrow> (char \<Rightarrow> bool) \<Rightarrow> range_t \<Rightarrow> exn + range_t" where
  "scan_while_loop str func remaining =
     (if length_r remaining > 0 then
        if \<not> start remaining < length str then Inl Out_of_range
        else if func (str ! start remaining)
        then scan_while_loop str func
               (remaining\<lparr>start := start remaining + 1, length_r := length_r remaining - 1\<rparr>)
        else Inr remaining
      else Inr remaining)"
  by pat_completeness auto
termination
  by (relation "measure (\<lambda>(str, func, remaining). length_r remaining)") auto

definition scan_while :: "string \<Rightarrow> range_t \<Rightarrow> (char \<Rightarrow> bool) \<Rightarrow> exn + (range_t \<times> range_t)" where
  "scan_while str remaining func =
     bind_exn (scan_while_loop str func remaining) (\<lambda>remaining'.
       Inr (make_range (start remaining) (start remaining' - start remaining), remaining'))"

definition scan_1_char :: "string \<Rightarrow> range_t \<Rightarrow> char \<Rightarrow> exn + (range_t \<times> range_t)" where
  "scan_1_char str remaining c =
     (if length_r remaining > 0 then
        if \<not> start remaining < length str then Inl Out_of_range
        else if str ! start remaining = c
        then Inr (make_range (start remaining) 1,
                  remaining\<lparr>start := start remaining + 1, length_r := length_r remaining - 1\<rparr>)
        else Inr (make_range (start remaining) 0, remaining)
      else Inr (make_range (start remaining) 0, remaining))"

definition char_is_valid_in_parameter :: "char \<Rightarrow> bool" where
  "char_is_valid_in_parameter c \<longleftrightarrow>
     c \<notin> set [CHR ''.'', CHR ''|'', CHR ''<'', CHR ''>'', CHR '','', CHR ''='', CHR ''('',
               CHR '')'', CHR ''['', CHR '']'', CHR '' '', CHR 0x09, CHR 0x0A]"

definition it_equals :: "char \<Rightarrow> char \<Rightarrow> bool" where
  "it_equals t c \<longleftrightarrow> c = t"

text \<open>
  \<^verbatim>\<open>parse_option_from_argument\<close> reads an argument of argv as \<open>name[=value]\<close>. The
  ranges of the option it returns are ranges of the argument, not of the doc.
\<close>

definition parse_option_from_argument :: "string \<Rightarrow> exn + option_t" where
  "parse_option_from_argument str =
     (if str = [] then Inl Assertion_failed
      else if str ! 0 \<noteq> CHR ''-'' then Inl Assertion_failed
      else
        bind_exn (scan_while str (make_range 0 (length str)) (it_equals CHR ''-'')) (\<lambda>(leading_dash_range, r1).
        bind_exn (scan_while str r1 char_is_valid_in_parameter) (\<lambda>(name_range, r2).
        bind_exn (scan_1_char str r2 CHR ''='') (\<lambda>(equals_range, r3).
          let value_range = (if \<not> range_empty equals_range then r3 else make_range 0 0)
          in Inr (make_option name_range value_range (length_r leading_dash_range)
                    (if range_empty equals_range then sep_space else sep_equals))))))"

text \<open>A resolved option: an option of the catalog found in argv.\<close>

record resolved_option_t =
  option :: option_t
  name_idx_in_argv :: nat
  value_idx_in_argv :: "nat option"
  value_range_in_arg :: range_t

definition resolved_option ::
  "option_t \<Rightarrow> nat \<Rightarrow> nat option \<Rightarrow> range_t \<Rightarrow> resolved_option_t" where
  "resolved_option opt name_idx val_idx val_range =
     \<lparr>option = opt, name_idx_in_argv = name_idx, value_idx_in_argv = val_idx,
      value_range_in_arg = val_range\<rparr>"

text \<open>
  What a parse function leaves behind: whether it succeeded, and the values of the
  variables it was given by pointer (the cursor \<open>idx\<close>, the resolved options, the error
  list, the suggestion).
\<close>

record parse_out =
  succeeded :: bool
  idx_out :: nat
  result_out :: "resolved_option_t list"
  errors_out :: "error_list_t option"
  suggestion_out :: "string option"

definition parse_done ::
  "bool \<Rightarrow> nat \<Rightarrow> resolved_option_t list \<Rightarrow> error_list_t option \<Rightarrow> string option \<Rightarrow> parse_out" where
  "parse_done ok i res errs sugg =
     \<lparr>succeeded = ok, idx_out = i, result_out = res, errors_out = errs, suggestion_out = sugg\<rparr>"

text \<open>The first loop of \<^verbatim>\<open>parse_long\<close>: the options of the type whose name is the name of the argument.\<close>

fun long_matches ::
  "string \<Rightarrow> string \<Rightarrow> option_t \<Rightarrow> type_t \<Rightarrow> option_t list \<Rightarrow> exn + option_t list" where
  "long_matches source arg arg_as_option ty [] = Inr []"
| "long_matches source arg arg_as_option ty (opt # options) =
     bind_exn (if otype opt = ty
               then range_equals_string source (name opt) arg
                      (start (name arg_as_option)) (Some (length_r (name arg_as_option)))
               else Inr False) (\<lambda>eq.
       if eq \<and> separator opt = sep_none then Inl Assertion_failed
       else bind_exn (long_matches source arg arg_as_option ty options) (\<lambda>rest.
         Inr (if eq then opt # rest else rest)))"

text \<open>The second loop: the options of the type whose name strictly extends the name of the argument.\<close>

fun prefix_matches ::
  "string \<Rightarrow> string \<Rightarrow> option_t \<Rightarrow> type_t \<Rightarrow> option_t list \<Rightarrow> exn + option_t list" where
  "prefix_matches source arg arg_as_option ty [] = Inr []"
| "prefix_matches source arg arg_as_option ty (opt # options) =
     bind_exn (if otype opt = ty \<and> length_r (name opt) > length_r (name arg_as_option)
               then compare_eq source (start (name opt)) (length_r (name arg_as_option))
                      arg (start (name arg_as_option)) (length_r (name arg_as_option))
               else Inr False) (\<lambda>eq.
       bind_exn (prefix_matches source arg arg_as_option ty options) (\<lambda>rest.
         Inr (if eq then opt # rest else rest)))"

text \<open>
  The end of \<^verbatim>\<open>parse_long\<close>, from the list of matches on: no match is an unknown option;
  one match has to agree with the argument on having a value and, under strict
  separators, on the separator.
\<close>

definition finish_long ::
  "string \<Rightarrow> string list \<Rightarrow> parse_flags_t \<Rightarrow> nat \<Rightarrow> option_t \<Rightarrow> option_t list \<Rightarrow>
   resolved_option_t list \<Rightarrow> error_list_t option \<Rightarrow> string option \<Rightarrow> exn + parse_out" where
  "finish_long source argv flags idx arg_as_option matches out_result out_errors out_suggestion =
     (if \<not> length matches \<le> 1 then Inl Assertion_failed
      else if length matches < 1
      then Inr (parse_done False idx out_result
                  (append_argv_error out_errors idx error_unknown_option ''Unknown long option'' 0)
                  out_suggestion)
      else
        let match = matches ! 0; name_idx = idx in
        bind_exn
          (if has_value match then
             if has_value arg_as_option
             then Inr (False, idx, Some idx, value_range arg_as_option, out_errors, out_suggestion)
             else if idx + 1 < length argv
             then Inr (False, idx + 1, Some (idx + 1), make_range 0 (length (argv ! (idx + 1))),
                       out_errors, out_suggestion)
             else if flag_generate_suggestions \<in> flags \<and> out_suggestion \<noteq> None
             then bind_exn (range_text source (value_range match)) (\<lambda>txt.
                    Inr (True, idx, None, make_range 0 0, out_errors, Some txt))
             else Inr (True, idx, None, make_range 0 0,
                       append_argv_error out_errors idx error_option_has_missing_argument
                         ''Option expects an argument'' 0, out_suggestion)
           else if has_value arg_as_option
           then Inr (True, idx, None, make_range 0 0,
                     append_argv_error out_errors idx error_option_unexpected_argument
                       ''Option does not expect an argument'' 0, out_suggestion)
           else Inr (False, idx, None, make_range 0 0, out_errors, out_suggestion))
          (\<lambda>(errored, idx1, arg_index, value_range, errors1, suggestion1).
             let (errored2, errors2) =
               (if \<not> errored \<and> flag_short_options_strict_separators \<in> flags
                   \<and> separator arg_as_option \<noteq> separator match
                then (True, append_argv_error errors1 idx1 error_wrong_separator
                              ''Option expects a different separator'' 0)
                else (errored, errors1))
             in if \<not> errored2
                then Inr (parse_done True (idx1 + 1)
                            (out_result @ [resolved_option match name_idx arg_index value_range])
                            errors2 suggestion1)
                else Inr (parse_done False idx1 out_result errors2 suggestion1)))"

text \<open>
  The prefix stage of \<^verbatim>\<open>parse_long\<close>: with no exact match and
  \<^verbatim>\<open>flag_resolve_unambiguous_prefixes\<close>, one prefix match becomes the match, several are
  an error and leave the matches empty.
\<close>

definition resolve_prefixes ::
  "string \<Rightarrow> string \<Rightarrow> option_t \<Rightarrow> type_t \<Rightarrow> parse_flags_t \<Rightarrow> nat \<Rightarrow> option_t list \<Rightarrow>
   option_t list \<Rightarrow> error_list_t option \<Rightarrow> exn + (option_t list \<times> error_list_t option)" where
  "resolve_prefixes source arg arg_as_option ty flags idx options matches out_errors =
     (if matches = [] \<and> flag_resolve_unambiguous_prefixes \<in> flags
      then bind_exn (prefix_matches source arg arg_as_option ty options) (\<lambda>pm.
             if length pm > 1
             then Inr (matches, append_argv_error out_errors idx error_ambiguous_prefix_match
                                  ''Ambiguous prefix match'' 0)
             else if length pm = 1 then Inr (pm, out_errors)
             else Inr (matches, out_errors))
      else Inr (matches, out_errors))"

text \<open>
  The head of \<^verbatim>\<open>parse_long\<close>: the argument at the cursor read as an option of the
  requested type, with the assertions of the source.
\<close>

definition long_argument :: "string list \<Rightarrow> type_t \<Rightarrow> nat \<Rightarrow> exn + option_t" where
  "long_argument argv ty idx =
     (if \<not> idx < length argv then Inl Out_of_range
      else if \<not> (ty = single_long \<or> ty = double_long) then Inl Assertion_failed
      else if \<not> substr_equals ''--'' (argv ! idx) (if ty = double_long then 2 else 1)
      then Inl Assertion_failed
      else bind_exn (parse_option_from_argument (argv ! idx)) (\<lambda>arg_as_option.
        if separator arg_as_option = sep_none then Inl Assertion_failed
        else
          let arg_as_option' =
            (if ty = single_long \<and> otype arg_as_option = single_short
             then arg_as_option\<lparr>otype := single_long\<rparr> else arg_as_option)
          in if otype arg_as_option' \<noteq> ty then Inl Assertion_failed
             else Inr arg_as_option'))"

definition parse_long ::
  "string \<Rightarrow> string list \<Rightarrow> type_t \<Rightarrow> parse_flags_t \<Rightarrow> nat \<Rightarrow> option_t list \<Rightarrow>
   resolved_option_t list \<Rightarrow> error_list_t option \<Rightarrow> string option \<Rightarrow> exn + parse_out" where
  "parse_long source argv ty flags idx options out_result out_errors out_suggestion =
     bind_exn (long_argument argv ty idx) (\<lambda>arg_as_option.
     bind_exn (long_matches source (argv ! idx) arg_as_option ty options) (\<lambda>matches.
     bind_exn (resolve_prefixes source (argv ! idx) arg_as_option ty flags idx options
                 matches out_errors) (\<lambda>(matches', errors').
       finish_long source argv flags idx arg_as_option matches' out_result errors'
         out_suggestion)))"

text \<open>
  \<^verbatim>\<open>parse_unseparated_short\<close>: an argument like \<open>-DNDEBUG\<close>. The candidates are the
  short options with a value (and with no separator, under strict separators) whose
  name is the character after the dash.
\<close>

fun unseparated_matches ::
  "string \<Rightarrow> string \<Rightarrow> parse_flags_t \<Rightarrow> option_t list \<Rightarrow> exn + option_t list" where
  "unseparated_matches source arg flags [] = Inr []"
| "unseparated_matches source arg flags (opt # options) =
     bind_exn (if otype opt = single_short \<and> has_value opt
                  \<and> (flag_short_options_strict_separators \<notin> flags \<or> separator opt = sep_none)
               then range_equals_string source (name opt) arg 1 (Some 1)
               else Inr False) (\<lambda>eq.
       bind_exn (unseparated_matches source arg flags options) (\<lambda>rest.
         Inr (if eq then opt # rest else rest)))"

definition parse_unseparated_short ::
  "string \<Rightarrow> string list \<Rightarrow> parse_flags_t \<Rightarrow> nat \<Rightarrow> option_t list \<Rightarrow>
   resolved_option_t list \<Rightarrow> error_list_t option \<Rightarrow> string option \<Rightarrow> exn + parse_out" where
  "parse_unseparated_short source argv flags idx options out_result out_errors out_suggestion =
     (if \<not> idx < length argv then Inl Out_of_range
      else
        let arg = argv ! idx in
        if \<not> substr_equals ''-'' arg 1 then Inl Assertion_failed
        else if \<not> length arg > 1 then Inl Assertion_failed
        else bind_exn (unseparated_matches source arg flags options) (\<lambda>matches.
          if \<not> length matches \<le> 1 then Inl Assertion_failed
          else if length matches = 1 then
            if length arg \<le> 2
            then Inr (parse_done False idx out_result
                        (append_argv_error out_errors idx error_option_has_missing_argument
                           ''Option expects an argument'' 0)
                        out_suggestion)
            else Inr (parse_done True (idx + 1)
                        (out_result @ [resolved_option (matches ! 0) idx (Some idx)
                                         (make_range 2 (length arg - 2))])
                        out_errors out_suggestion)
          else Inr (parse_done False idx out_result out_errors out_suggestion)))"

text \<open>
  \<^verbatim>\<open>parse_short\<close>: an argument like \<open>-xyz\<close>, one short option per character. The first
  loop finds the option of each character and stops at the first unknown one.
\<close>

fun short_matches ::
  "string \<Rightarrow> string \<Rightarrow> nat \<Rightarrow> option_t list \<Rightarrow> exn + option_t list" where
  "short_matches source arg idx_in_arg [] = Inr []"
| "short_matches source arg idx_in_arg (opt # options) =
     bind_exn (if otype opt = single_short
               then range_equals_string source (name opt) arg idx_in_arg (Some 1)
               else Inr False) (\<lambda>eq.
       bind_exn (short_matches source arg idx_in_arg options) (\<lambda>rest.
         Inr (if eq then opt # rest else rest)))"

text \<open>
  The loop over the characters of the argument; \<open>is\<close> are the positions still to
  read. It returns whether it met an unknown option, the options found, and the errors.
\<close>

fun options_for_characters ::
  "string \<Rightarrow> string \<Rightarrow> nat \<Rightarrow> option_t list \<Rightarrow> nat list \<Rightarrow> option_t list \<Rightarrow>
   error_list_t option \<Rightarrow> exn + (bool \<times> option_t list \<times> error_list_t option)" where
  "options_for_characters source arg idx options [] options_for_argument out_errors =
     Inr (False, options_for_argument, out_errors)"
| "options_for_characters source arg idx options (idx_in_arg # is) options_for_argument out_errors =
     bind_exn (short_matches source arg idx_in_arg options) (\<lambda>matches.
       if \<not> length matches \<le> 1 then Inl Assertion_failed
       else if length matches < 1
       then Inr (True, options_for_argument,
                 append_argv_error out_errors idx error_unknown_option
                   ''Unknown short option'' idx_in_arg)
       else options_for_characters source arg idx options is
              (options_for_argument @ [matches ! 0]) out_errors)"

text \<open>
  The second loop: only the last option may have a value; an earlier one with a value
  is an error, which does not stop the parse. \<open>i\<close> is the index of the option.
\<close>

fun check_values ::
  "nat \<Rightarrow> nat \<Rightarrow> option_t list \<Rightarrow> nat \<Rightarrow> bool \<Rightarrow> error_list_t option \<Rightarrow> bool \<times> error_list_t option" where
  "check_values idx n [] i last_option_has_argument out_errors =
     (last_option_has_argument, out_errors)"
| "check_values idx n (opt # opts) i last_option_has_argument out_errors =
     (if has_value opt then
        if i + 1 = n then check_values idx n opts (i + 1) True out_errors
        else check_values idx n opts (i + 1) last_option_has_argument
               (append_argv_error out_errors idx error_option_unexpected_argument
                  ''Option may not have a value unless it is the last option'' (i + 1))
      else check_values idx n opts (i + 1) last_option_has_argument out_errors)"

text \<open>The last loop: one resolved option per character, the value with the last.\<close>

fun construct_resolved ::
  "nat \<Rightarrow> nat \<Rightarrow> bool \<Rightarrow> nat option \<Rightarrow> range_t \<Rightarrow> option_t list \<Rightarrow> nat \<Rightarrow> resolved_option_t list" where
  "construct_resolved name_idx n last_option_has_argument val_idx_for_last val_range_for_last [] i = []"
| "construct_resolved name_idx n last_option_has_argument val_idx_for_last val_range_for_last (opt # opts) i =
     (if i + 1 = n \<and> last_option_has_argument
      then resolved_option opt name_idx val_idx_for_last val_range_for_last
      else resolved_option opt name_idx None (make_range 0 0))
     # construct_resolved name_idx n last_option_has_argument val_idx_for_last val_range_for_last
         opts (i + 1)"

definition parse_short ::
  "string \<Rightarrow> string list \<Rightarrow> parse_flags_t \<Rightarrow> nat \<Rightarrow> option_t list \<Rightarrow>
   resolved_option_t list \<Rightarrow> error_list_t option \<Rightarrow> string option \<Rightarrow> exn + parse_out" where
  "parse_short source argv flags idx options out_result out_errors out_suggestion =
     (if \<not> idx < length argv then Inl Out_of_range
      else
        let arg = argv ! idx in
        if \<not> substr_equals ''-'' arg 1 then Inl Assertion_failed
        else if \<not> length arg > 1 then Inl Assertion_failed
        else bind_exn (options_for_characters source arg idx options [1..<length arg] [] out_errors)
          (\<lambda>(errored, options_for_argument, errors1).
            let (last_option_has_argument, errors2) =
              (if \<not> errored
               then check_values idx (length options_for_argument) options_for_argument 0 False errors1
               else (False, errors1))
            in bind_exn
              (if \<not> errored \<and> last_option_has_argument then
                 if idx + 1 < length argv
                 then Inr (errored, Some (idx + 1), make_range 0 (length (argv ! (idx + 1))),
                           errors2, out_suggestion)
                 else if flag_generate_suggestions \<in> flags \<and> out_suggestion \<noteq> None
                 then bind_exn (range_text source (value_range (last options_for_argument))) (\<lambda>txt.
                        Inr (True, None, make_range 0 0, errors2, Some txt))
                 else Inr (True, None, make_range 0 0,
                           append_argv_error errors2 idx error_option_has_missing_argument
                             ''Option expects an argument'' 0, out_suggestion)
               else Inr (errored, None, make_range 0 0, errors2, out_suggestion))
              (\<lambda>(errored3, val_idx_for_last_option, val_range_for_last_option, errors3, suggestion3).
                 if \<not> errored3
                 then Inr (parse_done True (idx + (if last_option_has_argument then 2 else 1))
                             (out_result @ construct_resolved idx (length options_for_argument)
                                last_option_has_argument val_idx_for_last_option
                                val_range_for_last_option options_for_argument 0)
                             errors3 suggestion3)
                 else Inr (parse_done False idx out_result errors3 suggestion3))))"

text \<open>
  The variables of the loop of \<^verbatim>\<open>separate_argv_into_options_and_positionals\<close>: the
  cursor and the four outputs.
\<close>

record argv_state =
  idx :: nat
  positionals_out :: "nat list"
  resolved_options_out :: "resolved_option_t list"
  errors :: "error_list_t option"
  suggestion :: "string option"

text \<open>
  The branch of the loop for an argument with one leading dash: long parsing, then
  unseparated-short parsing, then short parsing, each from where the one before left
  the cursor, the resolved options and the suggestion; the long parser writes its errors
  to a local list, the two short parsers to another one. When all fail, the long errors
  and then the short errors are inserted at the front of the error list, and the
  cursor moves by one.
\<close>

definition local_errors :: "error_list_t option \<Rightarrow> error_list_t" where
  "local_errors errs = (case errs of None \<Rightarrow> [] | Some es \<Rightarrow> es)"

definition single_dash_step ::
  "string \<Rightarrow> string list \<Rightarrow> option_t list \<Rightarrow> parse_flags_t \<Rightarrow> argv_state \<Rightarrow> exn + argv_state" where
  "single_dash_step source argv options flags st =
     bind_exn (parse_long source argv single_long flags (idx st) options
                 (resolved_options_out st) (Some []) (suggestion st)) (\<lambda>l.
       if succeeded l
       then Inr (st\<lparr>idx := idx_out l, resolved_options_out := result_out l,
                     suggestion := suggestion_out l\<rparr>)
       else bind_exn (parse_unseparated_short source argv flags (idx_out l) options
                        (result_out l) (Some []) (suggestion_out l)) (\<lambda>u.
         if succeeded u
         then Inr (st\<lparr>idx := idx_out u, resolved_options_out := result_out u,
                       suggestion := suggestion_out u\<rparr>)
         else bind_exn (parse_short source argv flags (idx_out u) options
                          (result_out u) (errors_out u) (suggestion_out u)) (\<lambda>s.
           if succeeded s
           then Inr (st\<lparr>idx := idx_out s, resolved_options_out := result_out s,
                         suggestion := suggestion_out s\<rparr>)
           else Inr (st\<lparr>idx := idx_out s + 1, resolved_options_out := result_out s,
                         suggestion := suggestion_out s,
                         errors := (case errors st of
                                      None \<Rightarrow> None
                                    | Some es \<Rightarrow>
                                        Some (local_errors (errors_out s)
                                              @ (local_errors (errors_out l) @ es)))\<rparr>))))"

text \<open>
  One turn of the loop, for a cursor inside argv. The first component of the result
  is whether the loop stops (after a literal \<open>--\<close>).
\<close>

definition separate_step ::
  "string \<Rightarrow> string list \<Rightarrow> option_t list \<Rightarrow> parse_flags_t \<Rightarrow> argv_state \<Rightarrow>
   exn + (bool \<times> argv_state)" where
  "separate_step source argv options flags st =
     (if \<not> idx st < length argv then Inl Out_of_range
      else
        let arg = argv ! idx st in
        if str_equals ''--'' arg
        then Inr (True, st\<lparr>idx := length argv,
                           positionals_out := positionals_out st @ [idx st + 1..<length argv]\<rparr>)
        else if substr_equals ''--'' arg 2
        then bind_exn (parse_long source argv double_long flags (idx st) options
                         (resolved_options_out st) (errors st) (suggestion st)) (\<lambda>l.
               Inr (False, st\<lparr>idx := (if succeeded l then idx_out l else idx_out l + 1),
                               resolved_options_out := result_out l,
                               errors := errors_out l, suggestion := suggestion_out l\<rparr>))
        else if substr_equals ''-'' arg 1 \<and> length arg > 1
        then bind_exn (single_dash_step source argv options flags st) (\<lambda>st'. Inr (False, st'))
        else Inr (False, st\<lparr>idx := idx st + 1,
                             positionals_out := positionals_out st @ [idx st]\<rparr>))"

text \<open>
  The cursor never moves backwards in a parse function, and a turn of the loop moves it
  forwards; this is what makes the loop of the tokenizer end.
\<close>

lemma bind_exn_Inr [simp]: "bind_exn (Inr x) f = f x"
  by (simp add: bind_exn_def)

lemma bind_exn_Inl [simp]: "bind_exn (Inl e) f = Inl e"
  by (simp add: bind_exn_def)

lemma bind_exn_eq_Inr:
  "bind_exn m f = Inr y \<longleftrightarrow> (\<exists>x. m = Inr x \<and> f x = Inr y)"
  by (cases m) simp_all

lemma finish_long_idx:
  assumes "finish_long source argv flags i arg_as_option matches out_result out_errors out_suggestion = Inr l"
  shows "i \<le> idx_out l \<and> (succeeded l \<longrightarrow> i < idx_out l)"
  using assms
  by (auto simp: finish_long_def parse_done_def Let_def bind_exn_eq_Inr
           split: if_splits prod.splits)

lemma parse_long_idx:
  assumes "parse_long source argv ty flags i options out_result out_errors out_suggestion = Inr l"
  shows "i \<le> idx_out l \<and> (succeeded l \<longrightarrow> i < idx_out l)"
  using assms
  by (auto simp: parse_long_def bind_exn_eq_Inr dest: finish_long_idx)

lemma parse_unseparated_short_idx:
  assumes "parse_unseparated_short source argv flags i options out_result out_errors out_suggestion = Inr l"
  shows "i \<le> idx_out l \<and> (succeeded l \<longrightarrow> i < idx_out l)"
  using assms
  by (auto simp: parse_unseparated_short_def parse_done_def Let_def bind_exn_eq_Inr
           split: if_splits)

lemma parse_short_idx:
  assumes "parse_short source argv flags i options out_result out_errors out_suggestion = Inr l"
  shows "i \<le> idx_out l \<and> (succeeded l \<longrightarrow> i < idx_out l)"
  using assms
  by (auto simp: parse_short_def parse_done_def Let_def bind_exn_eq_Inr
           split: if_splits prod.splits)

lemma single_dash_step_idx:
  assumes "single_dash_step source argv options flags st = Inr st'"
  shows "idx st < idx st'"
proof -
  from assms obtain l where l: "parse_long source argv single_long flags (idx st) options
      (resolved_options_out st) (Some []) (suggestion st) = Inr l"
    by (auto simp: single_dash_step_def bind_exn_eq_Inr)
  note li = parse_long_idx [OF l]
  show ?thesis
  proof (cases "succeeded l")
    case True
    with assms l li show ?thesis by (auto simp: single_dash_step_def)
  next
    case nl: False
    with assms l obtain u where u: "parse_unseparated_short source argv flags (idx_out l) options
        (result_out l) (Some []) (suggestion_out l) = Inr u"
      by (auto simp: single_dash_step_def bind_exn_eq_Inr)
    note ui = parse_unseparated_short_idx [OF u]
    show ?thesis
    proof (cases "succeeded u")
      case True
      with assms l nl u li ui show ?thesis by (auto simp: single_dash_step_def)
    next
      case nu: False
      with assms l nl u obtain s where s: "parse_short source argv flags (idx_out u) options
          (result_out u) (errors_out u) (suggestion_out u) = Inr s"
        by (auto simp: single_dash_step_def bind_exn_eq_Inr)
      note si = parse_short_idx [OF s]
      from assms l nl u nu s li ui si show ?thesis
        by (cases "succeeded s") (auto simp: single_dash_step_def)
    qed
  qed
qed

lemma separate_step_idx:
  assumes "separate_step source argv options flags st = Inr (False, st')"
  shows "idx st < idx st'"
  using assms
  by (auto simp: separate_step_def Let_def bind_exn_eq_Inr
           split: if_splits dest: parse_long_idx single_dash_step_idx)

function separate_loop ::
  "string \<Rightarrow> string list \<Rightarrow> option_t list \<Rightarrow> parse_flags_t \<Rightarrow> argv_state \<Rightarrow> exn + argv_state" where
  "separate_loop source argv options flags st =
     (if idx st < length argv then
        (case separate_step source argv options flags st of
           Inl e \<Rightarrow> Inl e
         | Inr (stop, st') \<Rightarrow>
             if stop then Inr st' else separate_loop source argv options flags st')
      else Inr st)"
  by pat_completeness auto
termination
proof (relation "measure (\<lambda>(source, argv, options, flags, st). length argv - idx st)")
  show "wf (measure (\<lambda>(source, argv, options, flags, st). length argv - idx st))"
    by simp
next
  fix source :: string and argv :: "string list" and options :: "option_t list"
    and flags :: parse_flags_t and st :: argv_state and x2 x1 y
  assume "idx st < length argv"
    and "separate_step source argv options flags st = Inr x2"
    and "(x1, y) = x2" and "\<not> x1"
  then show "((source, argv, options, flags, y), (source, argv, options, flags, st))
     \<in> measure (\<lambda>(source, argv, options, flags, st). length argv - idx st)"
    using separate_step_idx [of source argv options flags st y] by auto
qed

declare separate_loop.simps [simp del]

definition separate_argv_into_options_and_positionals ::
  "string \<Rightarrow> string list \<Rightarrow> option_t list \<Rightarrow> parse_flags_t \<Rightarrow> nat list \<Rightarrow>
   resolved_option_t list \<Rightarrow> error_list_t option \<Rightarrow> string option \<Rightarrow> exn + argv_state" where
  "separate_argv_into_options_and_positionals source argv options flags out_positionals
     out_resolved_options out_errors out_suggestion =
     separate_loop source argv options flags
       \<lparr>idx = 0, positionals_out = out_positionals, resolved_options_out = out_resolved_options,
        errors = out_errors, suggestion = out_suggestion\<rparr>"

section \<open>Looking up the description of an option\<close>




text \<open>An option whose ranges lie inside the doc text.\<close>

definition range_in :: "string \<Rightarrow> range_t \<Rightarrow> bool" where
  "range_in source r \<longleftrightarrow> range_end r \<le> length source"



section \<open>The usage tree\<close>

text \<open>
  Modelled from the spec: the nodes of the usage tree, declared in
  \<^verbatim>\<open>docopt_fish_grammar.h\<close> and built by the grammar parser. A child is an owning pointer
  that may be null (\<open>None\<close>). A usage has the range of its program name, its
  alternation list and the next usage of the chain; an expression has its production
  (0 simple clause, 1 parentheses, 2 square brackets, 3 the \<open>[options]\<close> shortcut), the
  production of its \<^verbatim>\<open>opt_ellipsis\<close> child, its simple clause and its alternation list; a
  fixed clause and a variable clause have the range of their word, an option clause has
  its option.
\<close>

datatype option_clause_t = Option_clause option_t

datatype fixed_clause_t = Fixed_clause range_t

datatype variable_clause_t = Variable_clause range_t

datatype simple_clause_t =
  Simple_clause "option_clause_t option" "fixed_clause_t option" "variable_clause_t option"

datatype alternation_list_t =
    Alternation_list "expression_list_t option" "or_continuation_t option"
and expression_list_t =
    Expression_list "expression_t option" "opt_expression_list_t option"
and opt_expression_list_t =
    Opt_expression_list "expression_list_t option"
and or_continuation_t =
    Or_continuation "alternation_list_t option"
and expression_t =
    Expression nat "nat option" "simple_clause_t option" "alternation_list_t option"

datatype usage_t = Usage range_t "alternation_list_t option" "usage_t option"

section \<open>Names of options\<close>

definition range_chars :: "string \<Rightarrow> range_t \<Rightarrow> string" where
  "range_chars source r = take (length_r r) (drop (start r) source)"

text \<open>
  Modelled from the spec: \<^verbatim>\<open>option_t::has_same_name\<close> of \<^verbatim>\<open>docopt_fish_types.h\<close>. Two
  options have the same name when their key names are the same text of the doc; the
  key name of an option is its corresponding long name if that range is not empty, its
  own name otherwise.
\<close>

definition key_range :: "option_t \<Rightarrow> range_t" where
  "key_range opt =
     (if \<not> range_empty (corresponding_long_name opt) then corresponding_long_name opt
      else name opt)"

definition has_same_name :: "string \<Rightarrow> option_t \<Rightarrow> option_t \<Rightarrow> bool" where
  "has_same_name source opt1 opt2 \<longleftrightarrow>
     range_chars source (key_range opt1) = range_chars source (key_range opt2)"

definition options_have_same_name :: "string \<Rightarrow> option_t \<Rightarrow> option_t \<Rightarrow> bool" where
  "options_have_same_name source opt1 opt2 \<longleftrightarrow> has_same_name source opt1 opt2"

text \<open>
  Modelled from the spec: \<^verbatim>\<open>option_t::name_as_string\<close> and
  \<^verbatim>\<open>option_t::longest_name_as_string\<close> of \<^verbatim>\<open>docopt_fish_types.h\<close>. The canonical name of
  an option is its name with its leading dashes (\<open>-a\<close>, \<open>--verbose\<close>); its longest name,
  the key of the option in the option map, is its corresponding long name with two
  dashes if it has one, its canonical name otherwise.
\<close>

definition name_as_string :: "string \<Rightarrow> option_t \<Rightarrow> string" where
  "name_as_string source opt =
     replicate (leading_dash_count opt) CHR ''-'' @ range_chars source (name opt)"

definition longest_name_as_string :: "string \<Rightarrow> option_t \<Rightarrow> string" where
  "longest_name_as_string source opt =
     (if \<not> range_empty (corresponding_long_name opt)
      then ''--'' @ range_chars source (corresponding_long_name opt)
      else name_as_string source opt)"

section \<open>Match states\<close>

text \<open>
  Modelled from the spec: \<^verbatim>\<open>base_argument_t\<close> of \<^verbatim>\<open>docopt_fish.h\<close>, the count and the
  values of one name. The option map is a \<^verbatim>\<open>std::map\<close> from names to arguments;
  \<^verbatim>\<open>operator[]\<close> gives the entry of a key, a new empty one when the map has none.
\<close>

record arg_t =
  count :: nat
  values_a :: "string list"

definition empty_arg :: arg_t where
  "empty_arg = \<lparr>count = 0, values_a = []\<rparr>"

type_synonym option_map_t = "string \<rightharpoonup> arg_t"

definition entry :: "option_map_t \<Rightarrow> string \<Rightarrow> arg_t" where
  "entry m k = (case m k of None \<Rightarrow> empty_arg | Some a \<Rightarrow> a)"

record match_state_t =
  option_map :: option_map_t
  next_positional_index :: nat
  consumed_options :: "bool list"
  suggested_next_arguments :: "string fset"

text \<open>
  \<^verbatim>\<open>progress\<close>: the positionals consumed, plus the options consumed (the bits set in the
  bitmap), plus the number of suggestions.
\<close>

definition progress :: "match_state_t \<Rightarrow> nat" where
  "progress state =
     next_positional_index state + length (filter (\<lambda>b. b) (consumed_options state))
     + fcard (suggested_next_arguments state)"

text \<open>
  The match context. A positional argument is its index in argv. The flag
  \<open>is_in_square_brackets\<close> is the only field that a match changes; a match of a child
  is given the context with the new value, and the value on entry holds again after it.
\<close>

record match_context_t =
  ctx_flags :: parse_flags_t
  ctx_positionals :: "nat list"
  ctx_resolved_options :: "resolved_option_t list"
  ctx_argv :: "string list"
  is_in_square_brackets :: bool

definition has_more_positionals :: "match_context_t \<Rightarrow> match_state_t \<Rightarrow> exn + bool" where
  "has_more_positionals ctx state =
     (if \<not> next_positional_index state \<le> length (ctx_positionals ctx) then Inl Assertion_failed
      else Inr (next_positional_index state < length (ctx_positionals ctx)))"

text \<open>
  \<^verbatim>\<open>unused_arguments\<close>: the indexes of argv that a state leaves unused. A vector of
  one bit per argument is written with \<^verbatim>\<open>at\<close>, which raises out of range: the
  positionals before \<open>next_positional_index\<close> are marked, then the name and the value of
  every consumed option, then the name of every option that was not consumed is
  unmarked.
\<close>

definition set_at :: "bool list \<Rightarrow> nat \<Rightarrow> bool \<Rightarrow> exn + bool list" where
  "set_at used i b = (if i < length used then Inr (used[i := b]) else Inl Out_of_range)"

fun mark_positionals :: "nat list \<Rightarrow> nat list \<Rightarrow> bool list \<Rightarrow> exn + bool list" where
  "mark_positionals ps [] used = Inr used"
| "mark_positionals ps (i # is) used =
     (if \<not> i < length ps then Inl Out_of_range
      else bind_exn (set_at used (ps ! i) True) (mark_positionals ps is))"

fun mark_consumed ::
  "resolved_option_t list \<Rightarrow> bool list \<Rightarrow> nat list \<Rightarrow> bool list \<Rightarrow> exn + bool list" where
  "mark_consumed rs consumed [] used = Inr used"
| "mark_consumed rs consumed (i # is) used =
     (if consumed ! i then
        if \<not> i < length rs then Inl Out_of_range
        else bind_exn (set_at used (name_idx_in_argv (rs ! i)) True) (\<lambda>used1.
             bind_exn (case value_idx_in_argv (rs ! i) of
                         None \<Rightarrow> Inr used1
                       | Some v \<Rightarrow> set_at used1 v True) (mark_consumed rs consumed is))
      else mark_consumed rs consumed is used)"

fun unmark_unconsumed ::
  "resolved_option_t list \<Rightarrow> bool list \<Rightarrow> nat list \<Rightarrow> bool list \<Rightarrow> exn + bool list" where
  "unmark_unconsumed rs consumed [] used = Inr used"
| "unmark_unconsumed rs consumed (i # is) used =
     (if \<not> consumed ! i then
        if \<not> i < length rs then Inl Out_of_range
        else bind_exn (set_at used (name_idx_in_argv (rs ! i)) False)
               (unmark_unconsumed rs consumed is)
      else unmark_unconsumed rs consumed is used)"

definition unused_arguments :: "match_context_t \<Rightarrow> match_state_t \<Rightarrow> exn + nat list" where
  "unused_arguments ctx state =
     bind_exn (mark_positionals (ctx_positionals ctx) [0..<next_positional_index state]
                 (replicate (length (ctx_argv ctx)) False)) (\<lambda>used1.
       if length (consumed_options state) \<noteq> length (ctx_resolved_options ctx)
       then Inl Assertion_failed
       else
         bind_exn (mark_consumed (ctx_resolved_options ctx) (consumed_options state)
                     [0..<length (consumed_options state)] used1) (\<lambda>used2.
         bind_exn (unmark_unconsumed (ctx_resolved_options ctx) (consumed_options state)
                     [0..<length (consumed_options state)] used2) (\<lambda>used3.
           Inr (filter (\<lambda>i. \<not> used3 ! i) [0..<length used3]))))"

section \<open>Matching options\<close>

text \<open>
  The inner loop of \<^verbatim>\<open>match_options\<close>: the first resolved option, from index \<open>i\<close> on,
  that is not consumed and has the name of the option of the doc.
\<close>

fun find_resolved ::
  "string \<Rightarrow> resolved_option_t list \<Rightarrow> bool list \<Rightarrow> option_t \<Rightarrow> nat \<Rightarrow> exn + nat option" where
  "find_resolved source [] consumed opt_in_doc i = Inr None"
| "find_resolved source (r # rs) consumed opt_in_doc i =
     (if \<not> i < length consumed then Inl Out_of_range
      else if \<not> consumed ! i \<and> options_have_same_name source (option r) opt_in_doc
      then Inr (Some i)
      else find_resolved source rs consumed opt_in_doc (i + 1))"

text \<open>
  The outer loop, over the options of the doc. It threads the state, the key ranges
  matched so far, the options that may become suggestions, and whether an option
  matched.
\<close>

fun match_options_loop ::
  "string \<Rightarrow> match_context_t \<Rightarrow> option_t list \<Rightarrow> match_state_t \<Rightarrow> range_t list \<Rightarrow>
   option_t list \<Rightarrow> bool \<Rightarrow> exn + (match_state_t \<times> range_t list \<times> option_t list \<times> bool)" where
  "match_options_loop source ctx [] state matched_long_ranges potential_suggestions
     successful_match =
     Inr (state, matched_long_ranges, potential_suggestions, successful_match)"
| "match_options_loop source ctx (opt_in_doc # options_in_doc) state matched_long_ranges
     potential_suggestions successful_match =
     (if \<not> range_empty (corresponding_long_name opt_in_doc)
         \<and> corresponding_long_name opt_in_doc \<in> set matched_long_ranges
      then match_options_loop source ctx options_in_doc state matched_long_ranges
             potential_suggestions successful_match
      else
        bind_exn (find_resolved source (ctx_resolved_options ctx) (consumed_options state)
                    opt_in_doc 0) (\<lambda>resolved_opt_idx.
          case resolved_opt_idx of
            Some i \<Rightarrow>
              let resolved_opt = ctx_resolved_options ctx ! i;
                  nm = longest_name_as_string source opt_in_doc;
                  arg = entry (option_map state) nm
              in bind_exn
                   (case value_idx_in_argv resolved_opt of
                      None \<Rightarrow> Inr arg
                    | Some v \<Rightarrow>
                        if \<not> v < length (ctx_argv ctx) then Inl Out_of_range
                        else bind_exn (substr (ctx_argv ctx ! v)
                                         (start (value_range_in_arg resolved_opt))
                                         (length_r (value_range_in_arg resolved_opt))) (\<lambda>txt.
                               Inr (arg\<lparr>values_a := values_a arg @ [txt]\<rparr>)))
                   (\<lambda>arg1.
                      match_options_loop source ctx options_in_doc
                        (state\<lparr>option_map := (option_map state)(nm \<mapsto> arg1\<lparr>count := count arg1 + 1\<rparr>),
                               consumed_options := (consumed_options state)[i := True]\<rparr>)
                        (if \<not> range_empty (corresponding_long_name opt_in_doc)
                         then matched_long_ranges @ [corresponding_long_name opt_in_doc]
                         else matched_long_ranges)
                        potential_suggestions True)
          | None \<Rightarrow>
              match_options_loop source ctx options_in_doc state matched_long_ranges
                (if flag_generate_suggestions \<in> ctx_flags ctx
                 then potential_suggestions @ [opt_in_doc] else potential_suggestions)
                successful_match))"

text \<open>
  \<^verbatim>\<open>match_options\<close>. After the loop the staged options whose key was not matched
  become suggestions. The result is the new state when an option matched or a
  suggestion was made, and no state otherwise; in that case the state of the caller is
  as it was before the call.
\<close>

definition match_options ::
  "string \<Rightarrow> option_t list \<Rightarrow> match_state_t \<Rightarrow> match_context_t \<Rightarrow> exn + match_state_t list" where
  "match_options source options_in_doc state ctx =
     bind_exn (match_options_loop source ctx options_in_doc state [] [] False)
       (\<lambda>(state1, matched_long_ranges, potential_suggestions, successful_match).
          let made = (if flag_generate_suggestions \<in> ctx_flags ctx
                      then filter (\<lambda>s. range_empty (corresponding_long_name s)
                                        \<or> corresponding_long_name s \<notin> set matched_long_ranges)
                             potential_suggestions
                      else []);
              state2 = state1\<lparr>suggested_next_arguments :=
                         suggested_next_arguments state1
                         |\<union>| fset_of_list (map (name_as_string source) made)\<rparr>
          in Inr (if successful_match \<or> made \<noteq> [] then [state2] else []))"

section \<open>Matching the leaf clauses\<close>

definition match_option_clause ::
  "string \<Rightarrow> option_clause_t \<Rightarrow> match_state_t \<Rightarrow> match_context_t \<Rightarrow> exn + match_state_t list" where
  "match_option_clause source node state ctx =
     (case node of Option_clause opt \<Rightarrow>
        bind_exn (match_options source [opt] state ctx) (\<lambda>result.
          if length result = 0 then
            let state1 = (if flag_generate_suggestions \<in> ctx_flags ctx
                          then state\<lparr>suggested_next_arguments :=
                                 finsert (name_as_string source opt)
                                   (suggested_next_arguments state)\<rparr>
                          else state)
            in Inr (if is_in_square_brackets ctx \<or> flag_match_allow_incomplete \<in> ctx_flags ctx
                    then [state1] else [])
          else Inr result))"

definition match_fixed_clause ::
  "string \<Rightarrow> fixed_clause_t \<Rightarrow> match_state_t \<Rightarrow> match_context_t \<Rightarrow> exn + match_state_t list" where
  "match_fixed_clause source node state ctx =
     (case node of Fixed_clause word \<Rightarrow>
        bind_exn (has_more_positionals ctx state) (\<lambda>more.
          if more then
            let positional = ctx_positionals ctx ! next_positional_index state in
            if \<not> positional < length (ctx_argv ctx) then Inl Out_of_range
            else
              let nm = ctx_argv ctx ! positional in
              bind_exn (if length nm = length_r word
                        then range_equals_string source word nm 0 None
                        else Inr False) (\<lambda>eq.
                if eq
                then Inr [state\<lparr>option_map :=
                                   (option_map state)(nm \<mapsto>
                                      (entry (option_map state) nm)
                                        \<lparr>count := count (entry (option_map state) nm) + 1\<rparr>),
                                 next_positional_index := next_positional_index state + 1\<rparr>]
                else Inr [])
          else
            bind_exn (if flag_generate_suggestions \<in> ctx_flags ctx
                      then bind_exn (range_text source word) (\<lambda>txt.
                             Inr (state\<lparr>suggested_next_arguments :=
                                    finsert txt (suggested_next_arguments state)\<rparr>))
                      else Inr state) (\<lambda>state1.
              Inr (if flag_match_allow_incomplete \<in> ctx_flags ctx then [state1] else []))))"

definition match_variable_clause ::
  "string \<Rightarrow> variable_clause_t \<Rightarrow> match_state_t \<Rightarrow> match_context_t \<Rightarrow> exn + match_state_t list" where
  "match_variable_clause source node state ctx =
     (case node of Variable_clause word \<Rightarrow>
        bind_exn (has_more_positionals ctx state) (\<lambda>more.
          if more then
            bind_exn (range_text source word) (\<lambda>nm.
              let positional = ctx_positionals ctx ! next_positional_index state in
              if \<not> positional < length (ctx_argv ctx) then Inl Out_of_range
              else Inr [state\<lparr>option_map :=
                                 (option_map state)(nm \<mapsto>
                                    (entry (option_map state) nm)
                                      \<lparr>values_a := values_a (entry (option_map state) nm)
                                                    @ [ctx_argv ctx ! positional]\<rparr>),
                               next_positional_index := next_positional_index state + 1\<rparr>])
          else
            bind_exn (if flag_generate_suggestions \<in> ctx_flags ctx
                      then bind_exn (range_text source word) (\<lambda>txt.
                             Inr (state\<lparr>suggested_next_arguments :=
                                    finsert txt (suggested_next_arguments state)\<rparr>))
                      else Inr state) (\<lambda>state1.
              Inr (if flag_match_allow_incomplete \<in> ctx_flags ctx then [state1] else []))))"

definition match_simple_clause ::
  "string \<Rightarrow> simple_clause_t \<Rightarrow> match_state_t \<Rightarrow> match_context_t \<Rightarrow> exn + match_state_t list" where
  "match_simple_clause source node state ctx =
     (case node of Simple_clause opt fixed variable \<Rightarrow>
        (case opt of
           Some n \<Rightarrow> match_option_clause source n state ctx
         | None \<Rightarrow>
             (case fixed of
                Some n \<Rightarrow> match_fixed_clause source n state ctx
              | None \<Rightarrow>
                  (case variable of
                     Some n \<Rightarrow> match_variable_clause source n state ctx
                   | None \<Rightarrow> Inl Assertion_failed))))"
section \<open>Matching the tree\<close>

text \<open>
  A match of a node returns the list of its successor states, or raises; and it may
  not return at all, since the loop of an ellipsis has no bound of its own. The result
  of a match is therefore \<open>None\<close> when the match does not return, \<open>Some (Inl e)\<close> when
  it raises and \<open>Some (Inr states)\<close> when it returns.
\<close>

type_synonym 'a outcome = "(exn + 'a) option"

definition bind_out :: "'a outcome \<Rightarrow> ('a \<Rightarrow> 'b outcome) \<Rightarrow> 'b outcome" where
  "bind_out m f =
     (case m of None \<Rightarrow> None | Some (Inl e) \<Rightarrow> Some (Inl e) | Some (Inr x) \<Rightarrow> f x)"

text \<open>
  The filter of \<^verbatim>\<open>try_match\<close> under \<^verbatim>\<open>require_progress\<close>: every result is asserted
  not to have gone backwards, and a result with the progress of the state it came from
  is erased.
\<close>

definition keep_progress :: "nat \<Rightarrow> match_state_t list \<Rightarrow> exn + match_state_t list" where
  "keep_progress init_progress child_result =
     (if \<not> list_all (\<lambda>s. init_progress \<le> progress s) child_result then Inl Assertion_failed
      else Inr (filter (\<lambda>s. progress s \<noteq> init_progress) child_result))"

text \<open>
  \<^verbatim>\<open>try_match\<close> on a list of states, for a child that is not null: the child \<open>m\<close> is
  matched against every state in turn and the results are appended.
\<close>

fun try_match_states ::
  "(match_state_t \<Rightarrow> match_state_t list outcome) \<Rightarrow> bool \<Rightarrow> match_state_t list \<Rightarrow>
   match_state_t list outcome" where
  "try_match_states m require_progress [] = Some (Inr [])"
| "try_match_states m require_progress (state # state_list) =
     bind_out (m state) (\<lambda>child_result.
     bind_out (Some (if require_progress then keep_progress (progress state) child_result
                     else Inr child_result)) (\<lambda>kept.
     bind_out (try_match_states m require_progress state_list) (\<lambda>total_result.
       Some (Inr (kept @ total_result)))))"

text \<open>
  The loop of an ellipsis: while there are intermediate states, the child is matched
  against them under \<^verbatim>\<open>require_progress\<close>, and the states it gives are appended to
  the result and become the intermediate states.
\<close>

partial_function (option) rematch ::
  "(match_state_t \<Rightarrow> match_state_t list outcome) \<Rightarrow> match_state_t list \<Rightarrow>
   match_state_t list \<Rightarrow> match_state_t list outcome" where
  "rematch m result intermediate_states =
     (if length intermediate_states = 0 then Some (Inr result)
      else case try_match_states m True intermediate_states of
             None \<Rightarrow> None
           | Some (Inl e) \<Rightarrow> Some (Inl e)
           | Some (Inr next_states) \<Rightarrow> rematch m (result @ next_states) next_states)"

declare rematch.simps [code]

definition has_ellipsis :: "nat option \<Rightarrow> bool" where
  "has_ellipsis opt_ellipsis = (case opt_ellipsis of None \<Rightarrow> False | Some p \<Rightarrow> p > 0)"

text \<open>
  The \<open>[options]\<close> production of an expression: the shortcut options are matched; when
  none matches and no suggestion was made, the state passes through, with the names of
  all shortcut options as suggestions under \<^verbatim>\<open>flag_generate_suggestions\<close>.
\<close>

definition match_options_shortcut ::
  "string \<Rightarrow> option_t list \<Rightarrow> match_state_t \<Rightarrow> match_context_t \<Rightarrow> exn + match_state_t list" where
  "match_options_shortcut source shortcut_options state ctx =
     bind_exn (match_options source shortcut_options state ctx) (\<lambda>result.
       if length result = 0 then
         Inr [if flag_generate_suggestions \<in> ctx_flags ctx
              then state\<lparr>suggested_next_arguments :=
                     suggested_next_arguments state
                     |\<union>| fset_of_list (map (name_as_string source) shortcut_options)\<rparr>
              else state]
       else Inr result)"

text \<open>
  The overloads of \<^verbatim>\<open>match\<close> for the nodes of the tree. \<^verbatim>\<open>try_match\<close> on a null
  child gives no state.
\<close>

fun match_alternation_list ::
    "string \<Rightarrow> option_t list \<Rightarrow> alternation_list_t \<Rightarrow> match_state_t \<Rightarrow> match_context_t \<Rightarrow>
     match_state_t list outcome"
and match_expression_list ::
    "string \<Rightarrow> option_t list \<Rightarrow> expression_list_t \<Rightarrow> match_state_t \<Rightarrow> match_context_t \<Rightarrow>
     match_state_t list outcome"
and match_opt_expression_list ::
    "string \<Rightarrow> option_t list \<Rightarrow> opt_expression_list_t \<Rightarrow> match_state_t \<Rightarrow> match_context_t \<Rightarrow>
     match_state_t list outcome"
and match_or_continuation ::
    "string \<Rightarrow> option_t list \<Rightarrow> or_continuation_t \<Rightarrow> match_state_t \<Rightarrow> match_context_t \<Rightarrow>
     match_state_t list outcome"
and match_expression ::
    "string \<Rightarrow> option_t list \<Rightarrow> expression_t \<Rightarrow> match_state_t \<Rightarrow> match_context_t \<Rightarrow>
     match_state_t list outcome"
where
  "match_alternation_list source shortcut_options (Alternation_list expression_list or_continuation)
     state ctx =
     bind_out (case expression_list of
                 None \<Rightarrow> Some (Inr [])
               | Some n \<Rightarrow> match_expression_list source shortcut_options n state ctx) (\<lambda>result1.
     bind_out (case or_continuation of
                 None \<Rightarrow> Some (Inr [])
               | Some n \<Rightarrow> match_or_continuation source shortcut_options n state ctx) (\<lambda>result2.
       Some (Inr (result1 @ result2))))"
| "match_expression_list source shortcut_options (Expression_list expression opt_expression_list)
     state ctx =
     bind_out (case expression of
                 None \<Rightarrow> Some (Inr [])
               | Some n \<Rightarrow> match_expression source shortcut_options n state ctx)
       (\<lambda>intermed_state_list.
          case opt_expression_list of
            None \<Rightarrow> Some (Inr [])
          | Some n \<Rightarrow>
              try_match_states (\<lambda>s. match_opt_expression_list source shortcut_options n s ctx)
                False intermed_state_list)"
| "match_opt_expression_list source shortcut_options (Opt_expression_list expression_list)
     state ctx =
     (case expression_list of
        Some n \<Rightarrow> match_expression_list source shortcut_options n state ctx
      | None \<Rightarrow> Some (Inr [state]))"
| "match_or_continuation source shortcut_options (Or_continuation alternation_list) state ctx =
     (case alternation_list of
        None \<Rightarrow> Some (Inr [])
      | Some n \<Rightarrow> match_alternation_list source shortcut_options n state ctx)"
| "match_expression source shortcut_options
     (Expression production opt_ellipsis simple_clause alternation_list) state ctx =
     (if production = 0 then
        (case simple_clause of
           None \<Rightarrow> Some (Inr [])
         | Some n \<Rightarrow>
             bind_out (Some (match_simple_clause source n state ctx)) (\<lambda>result.
               if has_ellipsis opt_ellipsis
               then rematch (\<lambda>s. Some (match_simple_clause source n s ctx)) result result
               else Some (Inr result)))
      else if production = 1 then
        (case alternation_list of
           None \<Rightarrow> Some (Inr [])
         | Some n \<Rightarrow>
             bind_out (match_alternation_list source shortcut_options n state
                         (ctx\<lparr>is_in_square_brackets := False\<rparr>)) (\<lambda>result.
               if has_ellipsis opt_ellipsis
               then rematch (\<lambda>s. match_alternation_list source shortcut_options n s
                                     (ctx\<lparr>is_in_square_brackets := False\<rparr>)) result result
               else Some (Inr result)))
      else if production = 2 then
        bind_out
          (case alternation_list of
             None \<Rightarrow> Some (Inr [])
           | Some n \<Rightarrow>
               bind_out (match_alternation_list source shortcut_options n state
                           (ctx\<lparr>is_in_square_brackets := True\<rparr>)) (\<lambda>result.
                 if has_ellipsis opt_ellipsis
                 then rematch (\<lambda>s. match_alternation_list source shortcut_options n s
                                       (ctx\<lparr>is_in_square_brackets := True\<rparr>)) result result
                 else Some (Inr result)))
          (\<lambda>result. Some (Inr (result @ [state])))
      else if production = 3 then
        Some (match_options_shortcut source shortcut_options state ctx)
      else Some (Inl Assertion_failed))"

fun match_usage ::
  "string \<Rightarrow> option_t list \<Rightarrow> usage_t \<Rightarrow> match_state_t \<Rightarrow> match_context_t \<Rightarrow>
   match_state_t list outcome" where
  "match_usage source shortcut_options (Usage prog_name alternation_list next_usage) state ctx =
     bind_out (Some (has_more_positionals ctx state)) (\<lambda>more.
       if \<not> more then Some (Inr [])
       else if range_empty prog_name then Some (Inr [])
       else
         bind_out (case alternation_list of
                     Some n \<Rightarrow>
                       match_alternation_list source shortcut_options n
                         (state\<lparr>next_positional_index := next_positional_index state + 1\<rparr>) ctx
                   | None \<Rightarrow>
                       Some (Inr [state\<lparr>next_positional_index :=
                                          next_positional_index state + 1\<rparr>])) (\<lambda>main_branch.
         bind_out (case next_usage of
                     None \<Rightarrow> Some (Inr [])
                   | Some n \<Rightarrow> match_usage source shortcut_options n state ctx) (\<lambda>next_branch.
           Some (Inr (main_branch @ next_branch)))))"

section \<open>Choosing the best state and finalizing its map\<close>

text \<open>
  \<^verbatim>\<open>finalize_option_map\<close>. Without \<^verbatim>\<open>flag_generate_empty_args\<close> the map is returned as
  it is. With it, every option of the catalog gets an entry under its longest name,
  with its default value when it has one and the entry has no values; then every
  variable and every fixed word of the usage gets an entry.
\<close>

fun fill_options :: "string \<Rightarrow> option_t list \<Rightarrow> option_map_t \<Rightarrow> exn + option_map_t" where
  "fill_options source [] result = Inr result"
| "fill_options source (opt # opts) result =
     (let nm = longest_name_as_string source opt; arg = entry result nm in
      if \<not> range_empty (default_value_range opt) \<and> values_a arg = []
      then bind_exn (range_text source (default_value_range opt)) (\<lambda>txt.
             fill_options source opts (result(nm \<mapsto> arg\<lparr>values_a := values_a arg @ [txt]\<rparr>)))
      else fill_options source opts (result(nm \<mapsto> arg)))"

fun fill_names :: "string \<Rightarrow> range_t list \<Rightarrow> option_map_t \<Rightarrow> exn + option_map_t" where
  "fill_names source [] result = Inr result"
| "fill_names source (r # rs) result =
     bind_exn (range_text source r) (\<lambda>nm.
       fill_names source rs (result(nm \<mapsto> entry result nm)))"

definition finalize_option_map ::
  "string \<Rightarrow> range_t list \<Rightarrow> option_map_t \<Rightarrow> option_t list \<Rightarrow> range_t list \<Rightarrow> parse_flags_t \<Rightarrow>
   exn + option_map_t" where
  "finalize_option_map source all_static_arguments m all_options all_variables flags =
     (if flag_generate_empty_args \<notin> flags then Inr m
      else bind_exn (fill_options source all_options m) (\<lambda>result1.
           bind_exn (fill_names source all_variables result1) (\<lambda>result2.
             fill_names source all_static_arguments result2)))"

text \<open>
  The loop of \<^verbatim>\<open>match_argv\<close> that chooses the state: \<open>i\<close> is the index of the state
  at the head of the list, \<open>best_state_idx\<close> and \<open>best_unused_args\<close> are the best so
  far. A state with no unused argument ends the loop.
\<close>

fun best_state ::
  "match_context_t \<Rightarrow> match_state_t list \<Rightarrow> nat \<Rightarrow> nat option \<Rightarrow> nat list \<Rightarrow>
   exn + (nat option \<times> nat list)" where
  "best_state ctx [] i best_state_idx best_unused_args = Inr (best_state_idx, best_unused_args)"
| "best_state ctx (state # states) i best_state_idx best_unused_args =
     bind_exn (unused_arguments ctx state) (\<lambda>unused_args.
       if i = 0 \<or> length unused_args < length best_unused_args
       then if length unused_args = 0 then Inr (Some i, unused_args)
            else best_state ctx states (i + 1) (Some i) unused_args
       else best_state ctx states (i + 1) best_state_idx best_unused_args)"

definition init_state :: "resolved_option_t list \<Rightarrow> match_state_t" where
  "init_state resolved_options =
     \<lparr>option_map = Map.empty, next_positional_index = 0,
      consumed_options = replicate (length resolved_options) False,
      suggested_next_arguments = {||}\<rparr>"

definition match_context ::
  "parse_flags_t \<Rightarrow> nat list \<Rightarrow> resolved_option_t list \<Rightarrow> string list \<Rightarrow> match_context_t" where
  "match_context f p r av =
     \<lparr>ctx_flags = f, ctx_positionals = p, ctx_resolved_options = r, ctx_argv = av,
      is_in_square_brackets = False\<rparr>"

text \<open>
  \<^verbatim>\<open>match_argv\<close>, for a parser that has its tree: the map of the best state, finalized,
  and the unused arguments of the best state; with no state at all, the finalized
  empty map and every index of argv.
\<close>

definition match_argv ::
  "string \<Rightarrow> usage_t \<Rightarrow> option_t list \<Rightarrow> range_t list \<Rightarrow> string list \<Rightarrow> parse_flags_t \<Rightarrow>
   nat list \<Rightarrow> resolved_option_t list \<Rightarrow> option_t list \<Rightarrow> range_t list \<Rightarrow>
   (option_map_t \<times> nat list) outcome" where
  "match_argv source parse_tree shortcut_options all_static_arguments av flags positionals
     resolved_options all_options all_variables =
     (let ctx = match_context flags positionals resolved_options av in
      bind_out (match_usage source shortcut_options parse_tree (init_state resolved_options) ctx)
        (\<lambda>result.
           Some (bind_exn (best_state ctx result 0 None []) (\<lambda>(best_state_idx, best_unused_args).
             case best_state_idx of
               Some i \<Rightarrow>
                 bind_exn (finalize_option_map source all_static_arguments
                             (option_map (result ! i)) all_options all_variables flags)
                   (\<lambda>m. Inr (m, best_unused_args))
             | None \<Rightarrow>
                 bind_exn (finalize_option_map source all_static_arguments Map.empty
                             all_options all_variables flags)
                   (\<lambda>m. Inr (m, [0..<length av]))))))"

section \<open>The parse of an argv\<close>

text \<open>
  \<^verbatim>\<open>best_assignment_for_argv\<close>, the body of \<^verbatim>\<open>parse_arguments\<close>: argv is separated into
  positionals and resolved options against the catalog \<open>all_options\<close>, with a fresh error
  list and no suggestion; the tree is matched; the errors of the separation are
  appended to the errors of the caller.
\<close>

definition best_assignment_for_argv ::
  "string \<Rightarrow> usage_t \<Rightarrow> option_t list \<Rightarrow> option_t list \<Rightarrow> range_t list \<Rightarrow> range_t list \<Rightarrow>
   string list \<Rightarrow> parse_flags_t \<Rightarrow> error_list_t \<Rightarrow>
   (option_map_t \<times> nat list \<times> error_list_t) outcome" where
  "best_assignment_for_argv source parse_tree shortcut_options all_options all_variables
     all_static_arguments av flags out_errors =
     bind_out (Some (separate_argv_into_options_and_positionals source av all_options flags
                       [] [] (Some []) None)) (\<lambda>st.
     bind_out (match_argv source parse_tree shortcut_options all_static_arguments av flags
                 (positionals_out st) (resolved_options_out st) all_options all_variables)
       (\<lambda>(m, unused). Some (Inr (m, unused, out_errors @ local_errors (errors st)))))"

section \<open>The clauses of a tree and the bounds of a match\<close>

text \<open>
  The leaf clauses below a node: what \<^verbatim>\<open>clause_collector_t\<close> collects when it visits
  the tree (options, fixed words and variables, in the order of the visit).
\<close>

datatype clause_t = Option_c option_t | Fixed_c range_t | Variable_c range_t

definition clauses_of_simple_clause :: "simple_clause_t \<Rightarrow> clause_t list" where
  "clauses_of_simple_clause node =
     (case node of Simple_clause opt fixed variable \<Rightarrow>
        (case opt of None \<Rightarrow> [] | Some (Option_clause x) \<Rightarrow> [Option_c x])
        @ (case fixed of None \<Rightarrow> [] | Some (Fixed_clause w) \<Rightarrow> [Fixed_c w])
        @ (case variable of None \<Rightarrow> [] | Some (Variable_clause w) \<Rightarrow> [Variable_c w]))"

fun clauses_of_alternation_list :: "alternation_list_t \<Rightarrow> clause_t list"
and clauses_of_expression_list :: "expression_list_t \<Rightarrow> clause_t list"
and clauses_of_opt_expression_list :: "opt_expression_list_t \<Rightarrow> clause_t list"
and clauses_of_or_continuation :: "or_continuation_t \<Rightarrow> clause_t list"
and clauses_of_expression :: "expression_t \<Rightarrow> clause_t list"
where
  "clauses_of_alternation_list (Alternation_list expression_list or_continuation) =
     (case expression_list of None \<Rightarrow> [] | Some n \<Rightarrow> clauses_of_expression_list n)
     @ (case or_continuation of None \<Rightarrow> [] | Some n \<Rightarrow> clauses_of_or_continuation n)"
| "clauses_of_expression_list (Expression_list expression opt_expression_list) =
     (case expression of None \<Rightarrow> [] | Some n \<Rightarrow> clauses_of_expression n)
     @ (case opt_expression_list of None \<Rightarrow> [] | Some n \<Rightarrow> clauses_of_opt_expression_list n)"
| "clauses_of_opt_expression_list (Opt_expression_list expression_list) =
     (case expression_list of None \<Rightarrow> [] | Some n \<Rightarrow> clauses_of_expression_list n)"
| "clauses_of_or_continuation (Or_continuation alternation_list) =
     (case alternation_list of None \<Rightarrow> [] | Some n \<Rightarrow> clauses_of_alternation_list n)"
| "clauses_of_expression (Expression production opt_ellipsis simple_clause alternation_list) =
     (case simple_clause of None \<Rightarrow> [] | Some n \<Rightarrow> clauses_of_simple_clause n)
     @ (case alternation_list of None \<Rightarrow> [] | Some n \<Rightarrow> clauses_of_alternation_list n)"

fun clauses_of_usage :: "usage_t \<Rightarrow> clause_t list" where
  "clauses_of_usage (Usage prog_name alternation_list next_usage) =
     (case alternation_list of None \<Rightarrow> [] | Some n \<Rightarrow> clauses_of_alternation_list n)
     @ (case next_usage of None \<Rightarrow> [] | Some n \<Rightarrow> clauses_of_usage n)"

text \<open>The strings that matching a clause can suggest.\<close>

definition suggestions_of_clause :: "string \<Rightarrow> clause_t \<Rightarrow> string list" where
  "suggestions_of_clause source c =
     (case c of
        Option_c opt \<Rightarrow> [name_as_string source opt]
      | Fixed_c w \<Rightarrow> [range_chars source w]
      | Variable_c w \<Rightarrow> [range_chars source w])"

definition suggestions_of ::
  "string \<Rightarrow> option_t list \<Rightarrow> clause_t list \<Rightarrow> string fset" where
  "suggestions_of source shortcut_options cs =
     fset_of_list (map (name_as_string source) shortcut_options
                   @ concat (map (suggestions_of_clause source) cs))"

text \<open>
  A state within bounds: the positional cursor is at most \<open>N\<close>, the bitmap of consumed
  options has \<open>K\<close> bits, the suggestions are among \<open>V\<close>. Its progress is then bounded.
\<close>

definition within :: "nat \<Rightarrow> nat \<Rightarrow> string fset \<Rightarrow> match_state_t \<Rightarrow> bool" where
  "within N K V s \<longleftrightarrow>
     next_positional_index s \<le> N \<and> length (consumed_options s) = K
     \<and> suggested_next_arguments s |\<subseteq>| V"

text \<open>
  A matcher preserves the bounds when, on a state within the bounds, it returns (a
  list of states or an exception) and the states it returns are within the bounds.
\<close>

definition preserves ::
  "nat \<Rightarrow> nat \<Rightarrow> string fset \<Rightarrow> (match_state_t \<Rightarrow> match_state_t list outcome) \<Rightarrow> bool" where
  "preserves N K V m \<longleftrightarrow>
     (\<forall>s. within N K V s \<longrightarrow>
        (\<exists>r. m s = Some r) \<and> (\<forall>ss. m s = Some (Inr ss) \<longrightarrow> (\<forall>s' \<in> set ss. within N K V s')))"

definition preserves_list ::
  "nat \<Rightarrow> nat \<Rightarrow> string fset \<Rightarrow> (match_state_t list \<Rightarrow> match_state_t list outcome) \<Rightarrow> bool" where
  "preserves_list N K V g \<longleftrightarrow>
     (\<forall>states. (\<forall>s \<in> set states. within N K V s) \<longrightarrow>
        (\<exists>r. g states = Some r)
        \<and> (\<forall>out. g states = Some (Inr out) \<longrightarrow> (\<forall>s' \<in> set out. within N K V s')))"

section \<open>The best state\<close>

text \<open>
  State \<open>k\<close> of a list is its first state with the fewest unused arguments \<open>u\<close>: no
  state has fewer, and every state before it has more. A state whose unused arguments
  cannot be computed does not count.
\<close>

definition first_minimum ::
  "match_context_t \<Rightarrow> match_state_t list \<Rightarrow> nat \<Rightarrow> nat list \<Rightarrow> bool" where
  "first_minimum ctx states k u \<longleftrightarrow>
     k < length states \<and> unused_arguments ctx (states ! k) = Inr u
     \<and> list_all (\<lambda>j. case unused_arguments ctx (states ! j) of
                        Inl e \<Rightarrow> True | Inr u' \<Rightarrow> length u \<le> length u') [0..<length states]
     \<and> list_all (\<lambda>j. case unused_arguments ctx (states ! j) of
                        Inl e \<Rightarrow> True | Inr u' \<Rightarrow> length u < length u') [0..<k]"

text \<open>The indexes of argv that a state has used, and the names of the options it has not consumed.\<close>

definition consumed_positional_indexes :: "match_context_t \<Rightarrow> match_state_t \<Rightarrow> nat set" where
  "consumed_positional_indexes ctx state =
     set (map (\<lambda>i. ctx_positionals ctx ! i) [0..<next_positional_index state])"

definition consumed_option_indexes :: "match_context_t \<Rightarrow> match_state_t \<Rightarrow> nat set" where
  "consumed_option_indexes ctx state =
     set (concat (map (\<lambda>i. if consumed_options state ! i
                           then name_idx_in_argv (ctx_resolved_options ctx ! i)
                                # (case value_idx_in_argv (ctx_resolved_options ctx ! i) of
                                     None \<Rightarrow> [] | Some v \<Rightarrow> [v])
                           else [])
                   [0..<length (consumed_options state)]))"

definition unconsumed_name_indexes :: "match_context_t \<Rightarrow> match_state_t \<Rightarrow> nat set" where
  "unconsumed_name_indexes ctx state =
     set (concat (map (\<lambda>i. if \<not> consumed_options state ! i
                           then [name_idx_in_argv (ctx_resolved_options ctx ! i)] else [])
                   [0..<length (consumed_options state)]))"

section \<open>Example documents\<close>

text \<open>
  The doc \<open>prog -v\<close>: the usage \<open>prog -v\<close> with the option \<open>-v\<close>, as the grammar parser
  gives it (a list of expressions ends with an \<^verbatim>\<open>opt_expression_list\<close> that has no
  list).
\<close>

definition option_v :: option_t where
  "option_v = make_option (make_range 6 1) (make_range 0 0) 1 sep_space"

definition usage_prog_v :: usage_t where
  "usage_prog_v =
     Usage (make_range 0 4)
       (Some (Alternation_list
          (Some (Expression_list
             (Some (Expression 0 None
                      (Some (Simple_clause (Some (Option_clause option_v)) None None)) None))
             (Some (Opt_expression_list None))))
          None))
       None"

text \<open>
  The doc \<open>prog <x>\<close> with two usages: \<open>prog\<close> alone, and then \<open>prog <x>\<close>.
\<close>

definition usage_prog_x :: usage_t where
  "usage_prog_x =
     Usage (make_range 0 4) None
       (Some (Usage (make_range 0 4)
          (Some (Alternation_list
             (Some (Expression_list
                (Some (Expression 0 None
                         (Some (Simple_clause None None (Some (Variable_clause (make_range 5 3)))))
                         None))
                (Some (Opt_expression_list None))))
             None))
          None))"

text \<open>What a match returned, or no state when it raised or did not return.\<close>

definition returned :: "'a list outcome \<Rightarrow> 'a list" where
  "returned r = (case r of Some (Inr x) \<Rightarrow> x | _ \<Rightarrow> [])"

definition returns :: "'a outcome \<Rightarrow> bool" where
  "returns r = (case r of Some (Inr x) \<Rightarrow> True | _ \<Rightarrow> False)"

section \<open>Properties of the tokenizer\<close>



lemma append_argv_error_extends:
  "\<exists>more. local_errors (append_argv_error errs i c t p) = local_errors errs @ more"
  by (cases errs) (simp_all add: append_argv_error_def append_error_def local_errors_def)




lemma parse_unseparated_short_extends:
  assumes "parse_unseparated_short source argv flags i options out_result errs out_suggestion = Inr s"
  shows "\<exists>more. local_errors (errors_out s) = local_errors errs @ more"
  using assms append_argv_error_extends [of errs i error_option_has_missing_argument "''Option expects an argument''" 0]
  by (auto simp: parse_unseparated_short_def Let_def bind_exn_eq_Inr parse_done_def split: if_splits)






section \<open>Properties of the finalizer\<close>

lemma range_text_Inr: "range_text source r = Inr txt \<Longrightarrow> txt = range_chars source r"
  by (auto simp: range_text_def substr_def range_chars_def split: if_splits)











section \<open>Properties of the matcher\<close>

text \<open>
  C9 (amended). Matching a fixed clause against a state whose positional cursor is
  inside the positionals: if the next positional is an argument of argv and its text
  is the word of the clause, the only successor is the state with that positional
  consumed and the count of the word incremented in the option map; if its text differs
  from the word, there is no successor (and nothing is suggested). When no positional
  is left, the word is added to the suggestions under \<^verbatim>\<open>flag_generate_suggestions\<close>,
  and the state is the successor exactly when \<^verbatim>\<open>flag_match_allow_incomplete\<close> is set.
\<close>

theorem match_fixed_clause_cases:
  assumes "next_positional_index state \<le> length (ctx_positionals ctx)"
  shows "(next_positional_index state < length (ctx_positionals ctx)
          \<and> ctx_positionals ctx ! next_positional_index state < length (ctx_argv ctx)
          \<and> range_in source word
          \<and> ctx_argv ctx ! (ctx_positionals ctx ! next_positional_index state)
              = range_chars source word
          \<longrightarrow> match_fixed_clause source (Fixed_clause word) state ctx
              = Inr [state\<lparr>option_map :=
                       (option_map state)(range_chars source word \<mapsto>
                          (entry (option_map state) (range_chars source word))
                            \<lparr>count := count (entry (option_map state) (range_chars source word)) + 1\<rparr>),
                     next_positional_index := next_positional_index state + 1\<rparr>])
       \<and> (next_positional_index state < length (ctx_positionals ctx)
          \<and> ctx_positionals ctx ! next_positional_index state < length (ctx_argv ctx)
          \<and> range_in source word
          \<and> ctx_argv ctx ! (ctx_positionals ctx ! next_positional_index state)
              \<noteq> range_chars source word
          \<longrightarrow> match_fixed_clause source (Fixed_clause word) state ctx = Inr [])
       \<and> (next_positional_index state = length (ctx_positionals ctx)
          \<and> flag_generate_suggestions \<in> ctx_flags ctx \<and> start word \<le> length source
          \<longrightarrow> match_fixed_clause source (Fixed_clause word) state ctx
              = Inr (if flag_match_allow_incomplete \<in> ctx_flags ctx
                     then [state\<lparr>suggested_next_arguments :=
                             finsert (range_chars source word) (suggested_next_arguments state)\<rparr>]
                     else []))
       \<and> (next_positional_index state = length (ctx_positionals ctx)
          \<and> flag_generate_suggestions \<notin> ctx_flags ctx
          \<longrightarrow> match_fixed_clause source (Fixed_clause word) state ctx
              = Inr (if flag_match_allow_incomplete \<in> ctx_flags ctx then [state] else []))"
proof (intro conjI impI)
  assume h: "next_positional_index state < length (ctx_positionals ctx)
          \<and> ctx_positionals ctx ! next_positional_index state < length (ctx_argv ctx)
          \<and> range_in source word
          \<and> ctx_argv ctx ! (ctx_positionals ctx ! next_positional_index state)
              = range_chars source word"
  then have len: "length (range_chars source word) = length_r word"
    by (auto simp: range_chars_def range_in_def range_end_def)
  from h len show "match_fixed_clause source (Fixed_clause word) state ctx
              = Inr [state\<lparr>option_map :=
                       (option_map state)(range_chars source word \<mapsto>
                          (entry (option_map state) (range_chars source word))
                            \<lparr>count := count (entry (option_map state) (range_chars source word)) + 1\<rparr>),
                     next_positional_index := next_positional_index state + 1\<rparr>]"
    by (simp add: match_fixed_clause_def has_more_positionals_def range_equals_string_def
        range_in_def range_chars_def Let_def)
next
  assume h: "next_positional_index state < length (ctx_positionals ctx)
          \<and> ctx_positionals ctx ! next_positional_index state < length (ctx_argv ctx)
          \<and> range_in source word
          \<and> ctx_argv ctx ! (ctx_positionals ctx ! next_positional_index state)
              \<noteq> range_chars source word"
  then show "match_fixed_clause source (Fixed_clause word) state ctx = Inr []"
    by (auto simp: match_fixed_clause_def has_more_positionals_def range_equals_string_def
        range_in_def range_chars_def Let_def)
next
  assume h: "next_positional_index state = length (ctx_positionals ctx)
          \<and> flag_generate_suggestions \<in> ctx_flags ctx \<and> start word \<le> length source"
  then show "match_fixed_clause source (Fixed_clause word) state ctx
              = Inr (if flag_match_allow_incomplete \<in> ctx_flags ctx
                     then [state\<lparr>suggested_next_arguments :=
                             finsert (range_chars source word) (suggested_next_arguments state)\<rparr>]
                     else [])"
    by (simp add: match_fixed_clause_def has_more_positionals_def range_text_def substr_def
        range_chars_def)
next
  assume h: "next_positional_index state = length (ctx_positionals ctx)
          \<and> flag_generate_suggestions \<notin> ctx_flags ctx"
  then show "match_fixed_clause source (Fixed_clause word) state ctx
              = Inr (if flag_match_allow_incomplete \<in> ctx_flags ctx then [state] else [])"
    by (simp add: match_fixed_clause_def has_more_positionals_def)
qed

text \<open>
  The four cases on the word \<open>add\<close>: the positional \<open>add\<close>, the positional \<open>rm\<close>, no
  positional with both flags, no positional without flags.
\<close>

theorem match_fixed_clause_cases_witness:
  "match_fixed_clause ''add'' (Fixed_clause (make_range 0 3)) (init_state [])
     (match_context {} [0] [] [''add''])
   = Inr [(init_state [])\<lparr>option_map := Map.empty(''add'' \<mapsto> \<lparr>count = 1, values_a = []\<rparr>),
                          next_positional_index := 1\<rparr>]
   \<and> match_fixed_clause ''add'' (Fixed_clause (make_range 0 3)) (init_state [])
     (match_context {flag_match_allow_incomplete} [0] [] [''rm'']) = Inr []
   \<and> match_fixed_clause ''add'' (Fixed_clause (make_range 0 3)) (init_state [])
     (match_context {flag_match_allow_incomplete, flag_generate_suggestions} [] [] [])
   = Inr [(init_state [])\<lparr>suggested_next_arguments := {|''add''|}\<rparr>]
   \<and> match_fixed_clause ''add'' (Fixed_clause (make_range 0 3)) (init_state [])
     (match_context {} [] [] []) = Inr []"
  using match_fixed_clause_cases [of "init_state []" "match_context {} [0] [] [''add'']"
      "''add''" "make_range 0 3"]
    match_fixed_clause_cases [of "init_state []"
      "match_context {flag_match_allow_incomplete} [0] [] [''rm'']" "''add''" "make_range 0 3"]
    match_fixed_clause_cases [of "init_state []"
      "match_context {flag_match_allow_incomplete, flag_generate_suggestions} [] [] []"
      "''add''" "make_range 0 3"]
    match_fixed_clause_cases [of "init_state []" "match_context {} [] [] []"
      "''add''" "make_range 0 3"]
  by (simp add: init_state_def match_context_def make_range_def range_in_def range_end_def
      range_chars_def entry_def empty_arg_def)

text \<open>
  The claim as stated fails when a positional is left and differs from the word: under
  \<^verbatim>\<open>flag_match_allow_incomplete\<close> and \<^verbatim>\<open>flag_generate_suggestions\<close> the word \<open>a\<close>
  against the positional \<open>b\<close> has no successor.
\<close>

theorem match_fixed_clause_mismatch_counterexample:
  "match_fixed_clause ''a'' (Fixed_clause (make_range 0 1)) (init_state [])
     (match_context {flag_match_allow_incomplete, flag_generate_suggestions} [0] [] [''b''])
   = Inr []"
  by (simp add: match_fixed_clause_def has_more_positionals_def init_state_def
      match_context_def make_range_def Let_def range_equals_string_def range_end_def)

subsection \<open>Bounded progress and the loop of an ellipsis\<close>

lemma within_progress: "within N K V s \<Longrightarrow> progress s \<le> N + K + fcard V"
proof -
  assume w: "within N K V s"
  then have a: "next_positional_index s \<le> N" and b: "length (consumed_options s) = K"
    and c: "suggested_next_arguments s |\<subseteq>| V"
    by (simp_all add: within_def)
  have d: "length (filter (\<lambda>b. b) (consumed_options s)) \<le> K"
    using length_filter_le [of "\<lambda>b. b" "consumed_options s"] by (simp only: b)
  have e: "fcard (suggested_next_arguments s) \<le> fcard V"
    using c by (rule fcard_mono)
  show ?thesis unfolding progress_def using a d e by linarith
qed

lemma find_resolved_Some:
  "find_resolved source rs consumed opt i = Inr (Some k) \<Longrightarrow> k < length consumed"
  by (induction rs arbitrary: i) (auto split: if_splits)

lemma match_options_loop_state:
  "match_options_loop source ctx opts state mlr ps sm = Inr (state', mlr', ps', sm') \<Longrightarrow>
   next_positional_index state' = next_positional_index state
   \<and> length (consumed_options state') = length (consumed_options state)
   \<and> suggested_next_arguments state' = suggested_next_arguments state
   \<and> set ps' \<subseteq> set ps \<union> set opts"
proof (induction opts arbitrary: state mlr ps sm)
  case Nil
  then show ?case by simp
next
  case (Cons opt opts)
  show ?case
  proof (cases "\<not> range_empty (corresponding_long_name opt)
         \<and> corresponding_long_name opt \<in> set mlr")
    case True
    with Cons.prems have "match_options_loop source ctx opts state mlr ps sm
        = Inr (state', mlr', ps', sm')" by simp
    from Cons.IH [OF this] show ?thesis by auto
  next
    case False
    with Cons.prems obtain found where
      f: "find_resolved source (ctx_resolved_options ctx) (consumed_options state) opt 0 = Inr found"
      by (auto simp: bind_exn_eq_Inr)
    show ?thesis
    proof (cases found)
      case None
      with Cons.prems False f have "match_options_loop source ctx opts state mlr
          (if flag_generate_suggestions \<in> ctx_flags ctx then ps @ [opt] else ps) sm
        = Inr (state', mlr', ps', sm')" by simp
      from Cons.IH [OF this] show ?thesis by (auto split: if_splits)
    next
      case (Some i)
      let ?nm = "longest_name_as_string source opt"
      from Cons.prems False f Some obtain arg1 where
        rec: "match_options_loop source ctx opts
                (state\<lparr>option_map := (option_map state)(?nm \<mapsto> arg1\<lparr>count := count arg1 + 1\<rparr>),
                       consumed_options := (consumed_options state)[i := True]\<rparr>)
                (if \<not> range_empty (corresponding_long_name opt)
                 then mlr @ [corresponding_long_name opt] else mlr) ps True
          = Inr (state', mlr', ps', sm')"
        by (auto simp: bind_exn_eq_Inr Let_def)
      from Cons.IH [OF rec] show ?thesis by auto
    qed
  qed
qed

lemma match_options_within:
  assumes "match_options source opts state ctx = Inr ss"
    and "within N K V state"
    and "fset_of_list (map (name_as_string source) opts) |\<subseteq>| V"
  shows "\<forall>s' \<in> set ss. within N K V s'"
proof -
  from assms(1) obtain state1 mlr ps sm where
    l: "match_options_loop source ctx opts state [] [] False = Inr (state1, mlr, ps, sm)"
    by (auto simp: match_options_def bind_exn_eq_Inr)
  note st = match_options_loop_state [OF l]
  let ?made = "(if flag_generate_suggestions \<in> ctx_flags ctx
                      then filter (\<lambda>s. range_empty (corresponding_long_name s)
                                        \<or> corresponding_long_name s \<notin> set mlr) ps
                      else [])"
  from st have "set ?made \<subseteq> set opts" by auto
  then have "fset_of_list (map (name_as_string source) ?made)
      |\<subseteq>| fset_of_list (map (name_as_string source) opts)"
    by (auto simp: fset_of_list_elem)
  with assms(3) have sub: "fset_of_list (map (name_as_string source) ?made) |\<subseteq>| V" by auto
  let ?state2 = "state1\<lparr>suggested_next_arguments :=
                         suggested_next_arguments state1
                         |\<union>| fset_of_list (map (name_as_string source) ?made)\<rparr>"
  from assms(2) st have "suggested_next_arguments state1 |\<subseteq>| V"
    by (simp add: within_def)
  with sub have "suggested_next_arguments state1
      |\<union>| fset_of_list (map (name_as_string source) ?made) |\<subseteq>| V"
    by blast
  with assms(2) st have w2: "within N K V ?state2"
    by (simp add: within_def)
  from assms(1) l have "set ss \<subseteq> {?state2}"
    by (auto simp: match_options_def Let_def split: if_splits)
  with w2 show ?thesis by blast
qed


lemma fset_of_list_mem: "x \<in> set xs \<Longrightarrow> x |\<in>| fset_of_list xs"
  by (simp add: fset_of_list_elem)

lemma match_option_clause_within:
  assumes "match_option_clause source (Option_clause opt) state ctx = Inr ss"
    and "within N K V state"
    and "name_as_string source opt |\<in>| V"
  shows "\<forall>s' \<in> set ss. within N K V s'"
proof -
  from assms(1) obtain res where res: "match_options source [opt] state ctx = Inr res"
    by (auto simp: match_option_clause_def bind_exn_eq_Inr)
  from assms(3) have "fset_of_list (map (name_as_string source) [opt]) |\<subseteq>| V" by simp
  note w = match_options_within [OF res assms(2) this]
  show ?thesis
  proof (cases "res = []")
    case False
    with assms(1) res have "ss = res" by (simp add: match_option_clause_def)
    with w show ?thesis by simp
  next
    case True
    let ?state1 = "(if flag_generate_suggestions \<in> ctx_flags ctx
                    then state\<lparr>suggested_next_arguments :=
                           finsert (name_as_string source opt) (suggested_next_arguments state)\<rparr>
                    else state)"
    from assms(2,3) have w1: "within N K V ?state1" by (simp add: within_def)
    from True assms(1) res have "set ss \<subseteq> {?state1}"
      by (auto simp: match_option_clause_def Let_def split: if_splits)
    with w1 show ?thesis by blast
  qed
qed

lemma match_fixed_clause_within:
  assumes "match_fixed_clause source (Fixed_clause w) state ctx = Inr ss"
    and "within N K V state"
    and "length (ctx_positionals ctx) \<le> N"
    and "range_chars source w |\<in>| V"
  shows "\<forall>s' \<in> set ss. within N K V s'"
proof -
  from assms(1) obtain more where more: "has_more_positionals ctx state = Inr more"
    by (auto simp: match_fixed_clause_def bind_exn_eq_Inr)
  show ?thesis
  proof (cases more)
    case True
    with more have lt: "next_positional_index state < length (ctx_positionals ctx)"
      by (auto simp: has_more_positionals_def split: if_splits)
    let ?nm = "ctx_argv ctx ! (ctx_positionals ctx ! next_positional_index state)"
    let ?state1 = "state\<lparr>option_map :=
                       (option_map state)(?nm \<mapsto>
                          (entry (option_map state) ?nm)
                            \<lparr>count := count (entry (option_map state) ?nm) + 1\<rparr>),
                     next_positional_index := next_positional_index state + 1\<rparr>"
    from lt assms(2,3) have w1: "within N K V ?state1" by (simp add: within_def)
    from True assms(1) more have "set ss \<subseteq> {?state1}"
      by (auto simp: match_fixed_clause_def Let_def bind_exn_eq_Inr split: if_splits)
    with w1 show ?thesis by blast
  next
    case False
    let ?state1 = "state\<lparr>suggested_next_arguments :=
                           finsert (range_chars source w) (suggested_next_arguments state)\<rparr>"
    from assms(2,4) have w1: "within N K V ?state1" by (simp add: within_def)
    from False assms(1) more have "set ss \<subseteq> {?state1, state}"
      by (auto simp: match_fixed_clause_def Let_def bind_exn_eq_Inr
          dest!: range_text_Inr split: if_splits)
    with w1 assms(2) show ?thesis by blast
  qed
qed

lemma match_variable_clause_within:
  assumes "match_variable_clause source (Variable_clause w) state ctx = Inr ss"
    and "within N K V state"
    and "length (ctx_positionals ctx) \<le> N"
    and "range_chars source w |\<in>| V"
  shows "\<forall>s' \<in> set ss. within N K V s'"
proof -
  from assms(1) obtain more where more: "has_more_positionals ctx state = Inr more"
    by (auto simp: match_variable_clause_def bind_exn_eq_Inr)
  show ?thesis
  proof (cases more)
    case True
    with more have lt: "next_positional_index state < length (ctx_positionals ctx)"
      by (auto simp: has_more_positionals_def split: if_splits)
    let ?nm = "range_chars source w"
    let ?state1 = "state\<lparr>option_map :=
                       (option_map state)(?nm \<mapsto>
                          (entry (option_map state) ?nm)
                            \<lparr>values_a := values_a (entry (option_map state) ?nm)
                               @ [ctx_argv ctx ! (ctx_positionals ctx ! next_positional_index state)]\<rparr>),
                     next_positional_index := next_positional_index state + 1\<rparr>"
    from lt assms(2,3) have w1: "within N K V ?state1" by (simp add: within_def)
    from True assms(1) more have "set ss \<subseteq> {?state1}"
      by (auto simp: match_variable_clause_def Let_def bind_exn_eq_Inr
          dest!: range_text_Inr split: if_splits)
    with w1 show ?thesis by blast
  next
    case False
    let ?state1 = "state\<lparr>suggested_next_arguments :=
                           finsert (range_chars source w) (suggested_next_arguments state)\<rparr>"
    from assms(2,4) have w1: "within N K V ?state1" by (simp add: within_def)
    from False assms(1) more have "set ss \<subseteq> {?state1, state}"
      by (auto simp: match_variable_clause_def Let_def bind_exn_eq_Inr
          dest!: range_text_Inr split: if_splits)
    with w1 assms(2) show ?thesis by blast
  qed
qed

lemma match_simple_clause_within:
  assumes "match_simple_clause source node state ctx = Inr ss"
    and "within N K V state"
    and "length (ctx_positionals ctx) \<le> N"
    and "suggestions_of source shortcut_options (clauses_of_simple_clause node) |\<subseteq>| V"
  shows "\<forall>s' \<in> set ss. within N K V s'"
proof (cases node)
  case (Simple_clause opt fixed variable)
  show ?thesis
  proof (cases opt)
    case (Some oc)
    obtain x where oc: "oc = Option_clause x" by (cases oc)
    with Some Simple_clause assms(4) have "name_as_string source x |\<in>| V"
      by (auto simp: suggestions_of_def clauses_of_simple_clause_def suggestions_of_clause_def
          fset_of_list_elem)
    with Some Simple_clause oc assms(1,2) show ?thesis
      using match_option_clause_within [of source x state ctx ss N K V]
      by (simp add: match_simple_clause_def)
  next
    case None
    show ?thesis
    proof (cases fixed)
      case (Some fc)
      obtain w where fc: "fc = Fixed_clause w" by (cases fc)
      with Some Simple_clause assms(4) have "range_chars source w |\<in>| V"
        by (auto simp: suggestions_of_def clauses_of_simple_clause_def suggestions_of_clause_def
            fset_of_list_elem split: option.splits option_clause_t.splits)
      with Some None Simple_clause fc assms(1,2,3) show ?thesis
        using match_fixed_clause_within [of source w state ctx ss N K V]
        by (simp add: match_simple_clause_def)
    next
      case nf: None
      show ?thesis
      proof (cases variable)
        case (Some vc)
        obtain w where vc: "vc = Variable_clause w" by (cases vc)
        with Some Simple_clause assms(4) have "range_chars source w |\<in>| V"
          by (auto simp: suggestions_of_def clauses_of_simple_clause_def suggestions_of_clause_def
              fset_of_list_elem split: option.splits option_clause_t.splits fixed_clause_t.splits)
        with Some None nf Simple_clause vc assms(1,2,3) show ?thesis
          using match_variable_clause_within [of source w state ctx ss N K V]
          by (simp add: match_simple_clause_def)
      next
        case nv: None
        with None nf Simple_clause assms(1) show ?thesis
          by (simp add: match_simple_clause_def)
      qed
    qed
  qed
qed

lemma match_options_shortcut_within:
  assumes "match_options_shortcut source shortcut_options state ctx = Inr ss"
    and "within N K V state"
    and "fset_of_list (map (name_as_string source) shortcut_options) |\<subseteq>| V"
  shows "\<forall>s' \<in> set ss. within N K V s'"
proof -
  from assms(1) obtain res where res: "match_options source shortcut_options state ctx = Inr res"
    by (auto simp: match_options_shortcut_def bind_exn_eq_Inr)
  note w = match_options_within [OF res assms(2,3)]
  show ?thesis
  proof (cases "res = []")
    case False
    with assms(1) res have "ss = res" by (simp add: match_options_shortcut_def)
    with w show ?thesis by simp
  next
    case True
    let ?state1 = "state\<lparr>suggested_next_arguments :=
                     suggested_next_arguments state
                     |\<union>| fset_of_list (map (name_as_string source) shortcut_options)\<rparr>"
    from assms(2) have "suggested_next_arguments state |\<subseteq>| V" by (simp add: within_def)
    with assms(3) have "suggested_next_arguments state
                     |\<union>| fset_of_list (map (name_as_string source) shortcut_options) |\<subseteq>| V"
      by blast
    with assms(2) have w1: "within N K V ?state1" by (simp add: within_def)
    from True assms(1) res have "set ss \<subseteq> {?state1, state}"
      by (auto simp: match_options_shortcut_def split: if_splits)
    with w1 assms(2) show ?thesis by blast
  qed
qed


lemma preservesD:
  assumes "preserves N K V m" "within N K V s"
  shows "\<exists>r. m s = Some r" and "m s = Some (Inr ss) \<Longrightarrow> s' \<in> set ss \<Longrightarrow> within N K V s'"
  using assms unfolding preserves_def by blast+

lemma bind_out_Some_Inr [simp]: "bind_out (Some (Inr x)) f = f x"
  by (simp add: bind_out_def)

lemma bind_out_Some_Inl [simp]: "bind_out (Some (Inl e)) f = Some (Inl e)"
  by (simp add: bind_out_def)

lemma bind_out_None [simp]: "bind_out None f = None"
  by (simp add: bind_out_def)

lemma bind_out_eq_Some_Inr:
  "bind_out m f = Some (Inr y) \<longleftrightarrow> (\<exists>x. m = Some (Inr x) \<and> f x = Some (Inr y))"
  by (auto simp: bind_out_def split: option.splits sum.splits)

lemma bind_out_returns:
  assumes "\<exists>r. m = Some r" and "\<And>x. m = Some (Inr x) \<Longrightarrow> \<exists>r. f x = Some r"
  shows "\<exists>r. bind_out m f = Some r"
  using assms by (auto simp: bind_out_def split: option.splits sum.splits)

lemma keep_progress_Inr:
  "keep_progress p child = Inr kept \<Longrightarrow>
   set kept \<subseteq> set child \<and> (\<forall>s \<in> set kept. p < progress s)"
  by (fastforce simp: keep_progress_def list_all_iff split: if_splits)

lemma try_match_states_preserves:
  assumes p: "preserves N K V m"
  shows "(\<forall>s \<in> set states. within N K V s) \<Longrightarrow>
    (\<exists>r. try_match_states m rp states = Some r)
    \<and> (\<forall>out. try_match_states m rp states = Some (Inr out) \<longrightarrow> (\<forall>s' \<in> set out. within N K V s'))"
proof (induction states)
  case Nil
  show ?case by simp
next
  case (Cons s states)
  then have ws: "within N K V s" and IH: "\<exists>r. try_match_states m rp states = Some r"
    "\<And>out s'. try_match_states m rp states = Some (Inr out) \<Longrightarrow> s' \<in> set out \<Longrightarrow> within N K V s'"
    by auto
  from preservesD(1) [OF p ws] obtain r where r: "m s = Some r" by blast
  show ?case
  proof (cases r)
    case (Inl e)
    with r show ?thesis by simp
  next
    case (Inr child)
    note child = preservesD(2) [OF p ws, of child]
    let ?kept = "(if rp then keep_progress (progress s) child else Inr child)"
    show ?thesis
    proof (cases ?kept)
      case (Inl e)
      with r Inr show ?thesis by simp
    next
      case kept: (Inr kept)
      then have sub: "set kept \<subseteq> set child"
        using keep_progress_Inr [of "progress s" child kept] by (auto split: if_splits)
      from IH(1) obtain r2 where r2: "try_match_states m rp states = Some r2" by blast
      show ?thesis
      proof (cases r2)
        case (Inl e)
        with r Inr kept r2 show ?thesis by simp
      next
        case rest: (Inr rest)
        with r Inr kept r2 have eq: "try_match_states m rp (s # states) = Some (Inr (kept @ rest))"
          by simp
        have "within N K V s'" if "s' \<in> set (kept @ rest)" for s'
        proof (cases "s' \<in> set kept")
          case True
          with sub child r Inr show ?thesis by auto
        next
          case False
          with that have "s' \<in> set rest" by simp
          with IH(2) r2 rest show ?thesis by simp
        qed
        with eq show ?thesis by simp
      qed
    qed
  qed
qed

lemma try_match_states_progress:
  "try_match_states m True states = Some (Inr out) \<Longrightarrow>
   \<forall>s' \<in> set out. \<exists>s \<in> set states. \<exists>child.
      m s = Some (Inr child) \<and> s' \<in> set child \<and> progress s < progress s'"
proof (induction states arbitrary: out)
  case Nil
  then show ?case by simp
next
  case (Cons s states)
  from Cons.prems obtain child kept rest where
    c: "m s = Some (Inr child)" and k: "keep_progress (progress s) child = Inr kept"
    and r: "try_match_states m True states = Some (Inr rest)" and out: "out = kept @ rest"
    by (auto simp: bind_out_eq_Some_Inr)
  from keep_progress_Inr [OF k] c Cons.IH [OF r] out show ?case
    by auto
qed

lemma rematch_preserves:
  assumes p: "preserves N K V m"
  shows "(\<forall>s \<in> set result. within N K V s) \<Longrightarrow>
    (\<forall>s \<in> set todo. within N K V s \<and> L \<le> progress s) \<Longrightarrow>
    (\<exists>r. rematch m result todo = Some r)
    \<and> (\<forall>out. rematch m result todo = Some (Inr out) \<longrightarrow> (\<forall>s' \<in> set out. within N K V s'))"
proof (induction "N + K + fcard V + 1 - L" arbitrary: result todo L rule: less_induct)
  case less
  show ?case
  proof (cases "todo = []")
    case True
    with less.prems(1) show ?thesis by (simp add: rematch.simps)
  next
    case False
    from less.prems(2) have wt: "\<forall>s \<in> set todo. within N K V s" by simp
    note t = try_match_states_preserves [OF p wt, of True]
    then obtain r where r: "try_match_states m True todo = Some r" by blast
    show ?thesis
    proof (cases r)
      case (Inl e)
      with r False show ?thesis by (simp add: rematch.simps)
    next
      case (Inr next_states)
      with r False have eq: "rematch m result todo
          = rematch m (result @ next_states) next_states"
        by (simp add: rematch.simps)
      from t r Inr have wn: "\<forall>s' \<in> set next_states. within N K V s'" by simp
      have pn: "L + 1 \<le> progress s'" if "s' \<in> set next_states" for s'
      proof -
        from try_match_states_progress [of m todo next_states] r Inr that
        obtain s where "s \<in> set todo" "progress s < progress s'" by blast
        with less.prems(2) show ?thesis by fastforce
      qed
      from False obtain s0 where s0: "s0 \<in> set todo" by (cases todo) auto
      with less.prems(2) within_progress [of N K V s0] have "L \<le> N + K + fcard V" by fastforce
      then have dec: "N + K + fcard V + 1 - (L + 1) < N + K + fcard V + 1 - L" by simp
      have "(\<exists>r. rematch m (result @ next_states) next_states = Some r)
        \<and> (\<forall>out. rematch m (result @ next_states) next_states = Some (Inr out)
              \<longrightarrow> (\<forall>s' \<in> set out. within N K V s'))"
      proof (rule less.hyps [OF dec])
        from less.prems(1) wn show "\<forall>s \<in> set (result @ next_states). within N K V s" by auto
        from wn pn show "\<forall>s \<in> set next_states. within N K V s \<and> L + 1 \<le> progress s" by auto
      qed
      with eq show ?thesis by simp
    qed
  qed
qed

lemma rematch_preserves0:
  assumes "preserves N K V m" "\<forall>s \<in> set result. within N K V s"
  shows "(\<exists>r. rematch m result result = Some r)
    \<and> (\<forall>out. rematch m result result = Some (Inr out) \<longrightarrow> (\<forall>s' \<in> set out. within N K V s'))"
  using rematch_preserves [OF assms(1), of result result 0] assms(2) by simp


lemma preserves_bind:
  assumes m: "preserves N K V m"
    and g: "\<And>s. within N K V s \<Longrightarrow> preserves_list N K V (g s)"
  shows "preserves N K V (\<lambda>s. bind_out (m s) (g s))"
  unfolding preserves_def
proof (intro allI impI)
  fix s
  assume ws: "within N K V s"
  from preservesD(1) [OF m ws] obtain r where r: "m s = Some r" by blast
  show "(\<exists>r. bind_out (m s) (g s) = Some r)
      \<and> (\<forall>ss. bind_out (m s) (g s) = Some (Inr ss) \<longrightarrow> (\<forall>s' \<in> set ss. within N K V s'))"
  proof (cases r)
    case (Inl e)
    with r show ?thesis by simp
  next
    case (Inr states)
    with r preservesD(2) [OF m ws, of states] have "\<forall>s' \<in> set states. within N K V s'" by blast
    with g [OF ws] have "(\<exists>r. g s states = Some r)
        \<and> (\<forall>out. g s states = Some (Inr out) \<longrightarrow> (\<forall>s' \<in> set out. within N K V s'))"
      unfolding preserves_list_def by blast
    with r Inr show ?thesis by simp
  qed
qed

lemma preserves_case_option:
  assumes "\<And>n. x = Some n \<Longrightarrow> preserves N K V (f n)"
  shows "preserves N K V (\<lambda>s. case x of None \<Rightarrow> Some (Inr []) | Some n \<Rightarrow> f n s)"
proof (cases x)
  case None
  then show ?thesis by (simp add: preserves_def)
next
  case (Some n)
  with assms [OF Some] show ?thesis by (simp add: preserves_def)
qed

lemma preserves_list_return: "preserves_list N K V (\<lambda>states. Some (Inr states))"
  by (simp add: preserves_list_def)

lemma preserves_list_snoc:
  "within N K V s \<Longrightarrow> preserves_list N K V (\<lambda>states. Some (Inr (states @ [s])))"
  by (simp add: preserves_list_def)

lemma preserves_list_try_match_states:
  "preserves N K V m \<Longrightarrow> preserves_list N K V (try_match_states m rp)"
  using try_match_states_preserves [of N K V m] by (simp add: preserves_list_def)

lemma preserves_list_rematch:
  "preserves N K V m \<Longrightarrow> preserves_list N K V (\<lambda>result. rematch m result result)"
  using rematch_preserves0 [of N K V m] by (simp add: preserves_list_def)

lemma preserves_list_ellipsis:
  "preserves N K V m \<Longrightarrow>
   preserves_list N K V (\<lambda>result. if b then rematch m result result else Some (Inr result))"
  by (cases b) (simp_all add: preserves_list_rematch preserves_list_return)

lemma preserves_append:
  assumes m1: "preserves N K V m1" and m2: "preserves N K V m2"
  shows "preserves N K V
           (\<lambda>s. bind_out (m1 s) (\<lambda>r1. bind_out (m2 s) (\<lambda>r2. Some (Inr (r1 @ r2)))))"
proof (rule preserves_bind [OF m1])
  fix s
  assume ws: "within N K V s"
  show "preserves_list N K V (\<lambda>r1. bind_out (m2 s) (\<lambda>r2. Some (Inr (r1 @ r2))))"
    unfolding preserves_list_def
  proof (intro allI impI)
    fix states
    assume st: "\<forall>s \<in> set states. within N K V s"
    from preservesD(1) [OF m2 ws] obtain r where r: "m2 s = Some r" by blast
    show "(\<exists>r. bind_out (m2 s) (\<lambda>r2. Some (Inr (states @ r2))) = Some r)
      \<and> (\<forall>out. bind_out (m2 s) (\<lambda>r2. Some (Inr (states @ r2))) = Some (Inr out)
            \<longrightarrow> (\<forall>s' \<in> set out. within N K V s'))"
    proof (cases r)
      case (Inl e)
      with r show ?thesis by simp
    next
      case (Inr r2)
      with r preservesD(2) [OF m2 ws, of r2] have "\<forall>s' \<in> set r2. within N K V s'" by blast
      with st r Inr show ?thesis by auto
    qed
  qed
qed

lemma preserves_simple_clause:
  assumes "length (ctx_positionals ctx) \<le> N"
    and "suggestions_of source shortcut_options (clauses_of_simple_clause node) |\<subseteq>| V"
  shows "preserves N K V (\<lambda>s. Some (match_simple_clause source node s ctx))"
  unfolding preserves_def
  using match_simple_clause_within [of source node _ ctx _ N K V shortcut_options] assms
  by auto

lemma preserves_options_shortcut:
  assumes "fset_of_list (map (name_as_string source) shortcut_options) |\<subseteq>| V"
  shows "preserves N K V (\<lambda>s. Some (match_options_shortcut source shortcut_options s ctx))"
  unfolding preserves_def
  using match_options_shortcut_within [of source shortcut_options _ ctx _ N K V] assms
  by auto

lemma suggestions_of_mono:
  "set cs \<subseteq> set cs' \<Longrightarrow>
   suggestions_of source shortcut_options cs |\<subseteq>| suggestions_of source shortcut_options cs'"
  by (fastforce simp: suggestions_of_def fset_of_list_elem)

lemma suggestions_of_shortcut:
  "fset_of_list (map (name_as_string source) shortcut_options)
   |\<subseteq>| suggestions_of source shortcut_options cs"
  by (auto simp: suggestions_of_def fset_of_list_elem)

lemma suggestions_sub:
  assumes "suggestions_of source shortcut_options cs' |\<subseteq>| V" "set cs \<subseteq> set cs'"
  shows "suggestions_of source shortcut_options cs |\<subseteq>| V"
  using suggestions_of_mono [OF assms(2), of source shortcut_options] assms(1) by blast


lemma match_tree_preserves:
  fixes source :: string and shortcut_options :: "option_t list" and N K :: nat and V :: "string fset"
  shows "\<forall>ctx. length (ctx_positionals ctx) \<le> N \<longrightarrow>
           suggestions_of source shortcut_options (clauses_of_alternation_list al) |\<subseteq>| V \<longrightarrow>
           preserves N K V (\<lambda>s. match_alternation_list source shortcut_options al s ctx)"
    and "\<forall>ctx. length (ctx_positionals ctx) \<le> N \<longrightarrow>
           suggestions_of source shortcut_options (clauses_of_expression_list el) |\<subseteq>| V \<longrightarrow>
           preserves N K V (\<lambda>s. match_expression_list source shortcut_options el s ctx)"
    and "\<forall>ctx. length (ctx_positionals ctx) \<le> N \<longrightarrow>
           suggestions_of source shortcut_options (clauses_of_opt_expression_list oel) |\<subseteq>| V \<longrightarrow>
           preserves N K V (\<lambda>s. match_opt_expression_list source shortcut_options oel s ctx)"
    and "\<forall>ctx. length (ctx_positionals ctx) \<le> N \<longrightarrow>
           suggestions_of source shortcut_options (clauses_of_or_continuation oc) |\<subseteq>| V \<longrightarrow>
           preserves N K V (\<lambda>s. match_or_continuation source shortcut_options oc s ctx)"
    and "\<forall>ctx. length (ctx_positionals ctx) \<le> N \<longrightarrow>
           suggestions_of source shortcut_options (clauses_of_expression e) |\<subseteq>| V \<longrightarrow>
           preserves N K V (\<lambda>s. match_expression source shortcut_options e s ctx)"
proof (induction al and el and oel and oc and e)
  case (Alternation_list x1 x2)
  show ?case
  proof (intro allI impI)
    fix ctx :: match_context_t
    assume len: "length (ctx_positionals ctx) \<le> N"
      and sub: "suggestions_of source shortcut_options
                  (clauses_of_alternation_list (Alternation_list x1 x2)) |\<subseteq>| V"
    have p1: "preserves N K V (\<lambda>s. case x1 of None \<Rightarrow> Some (Inr [])
               | Some n \<Rightarrow> match_expression_list source shortcut_options n s ctx)"
    proof (rule preserves_case_option
        [of x1 N K V "\<lambda>n s. match_expression_list source shortcut_options n s ctx"])
      fix n
      assume n: "x1 = Some n"
      then have mem: "n \<in> set_option x1" by simp
      from n have "set (clauses_of_expression_list n)
          \<subseteq> set (clauses_of_alternation_list (Alternation_list x1 x2))" by simp
      from suggestions_sub [OF sub this] Alternation_list(1) [OF mem] len
      show "preserves N K V (\<lambda>s. match_expression_list source shortcut_options n s ctx)" by blast
    qed
    have p2: "preserves N K V (\<lambda>s. case x2 of None \<Rightarrow> Some (Inr [])
               | Some n \<Rightarrow> match_or_continuation source shortcut_options n s ctx)"
    proof (rule preserves_case_option
        [of x2 N K V "\<lambda>n s. match_or_continuation source shortcut_options n s ctx"])
      fix n
      assume n: "x2 = Some n"
      then have mem: "n \<in> set_option x2" by simp
      from n have "set (clauses_of_or_continuation n)
          \<subseteq> set (clauses_of_alternation_list (Alternation_list x1 x2))" by simp
      from suggestions_sub [OF sub this] Alternation_list(2) [OF mem] len
      show "preserves N K V (\<lambda>s. match_or_continuation source shortcut_options n s ctx)" by blast
    qed
    from preserves_append [OF p1 p2]
    show "preserves N K V
        (\<lambda>s. match_alternation_list source shortcut_options (Alternation_list x1 x2) s ctx)"
      by simp
  qed
next
  case (Expression_list x1 x2)
  show ?case
  proof (intro allI impI)
    fix ctx :: match_context_t
    assume len: "length (ctx_positionals ctx) \<le> N"
      and sub: "suggestions_of source shortcut_options
                  (clauses_of_expression_list (Expression_list x1 x2)) |\<subseteq>| V"
    have p1: "preserves N K V (\<lambda>s. case x1 of None \<Rightarrow> Some (Inr [])
               | Some n \<Rightarrow> match_expression source shortcut_options n s ctx)"
    proof (rule preserves_case_option
        [of x1 N K V "\<lambda>n s. match_expression source shortcut_options n s ctx"])
      fix n
      assume n: "x1 = Some n"
      then have mem: "n \<in> set_option x1" by simp
      from n have "set (clauses_of_expression n)
          \<subseteq> set (clauses_of_expression_list (Expression_list x1 x2))" by simp
      from suggestions_sub [OF sub this] Expression_list(1) [OF mem] len
      show "preserves N K V (\<lambda>s. match_expression source shortcut_options n s ctx)" by blast
    qed
    have p2: "preserves_list N K V (\<lambda>states. case x2 of None \<Rightarrow> Some (Inr [])
               | Some n \<Rightarrow> try_match_states
                   (\<lambda>s. match_opt_expression_list source shortcut_options n s ctx) False states)"
    proof (cases x2)
      case None
      then show ?thesis by (simp add: preserves_list_def)
    next
      case (Some n)
      then have mem: "n \<in> set_option x2" by simp
      from Some have "set (clauses_of_opt_expression_list n)
          \<subseteq> set (clauses_of_expression_list (Expression_list x1 x2))" by simp
      from suggestions_sub [OF sub this] Expression_list(2) [OF mem] len
      have "preserves N K V (\<lambda>s. match_opt_expression_list source shortcut_options n s ctx)"
        by blast
      from preserves_list_try_match_states [OF this, of False] Some show ?thesis by simp
    qed
    from preserves_bind [OF p1, of "\<lambda>s states. case x2 of None \<Rightarrow> Some (Inr [])
               | Some n \<Rightarrow> try_match_states
                   (\<lambda>s. match_opt_expression_list source shortcut_options n s ctx) False states"] p2
    show "preserves N K V
        (\<lambda>s. match_expression_list source shortcut_options (Expression_list x1 x2) s ctx)"
      by simp
  qed
next
  case (Opt_expression_list x)
  show ?case
  proof (intro allI impI)
    fix ctx :: match_context_t
    assume len: "length (ctx_positionals ctx) \<le> N"
      and sub: "suggestions_of source shortcut_options
                  (clauses_of_opt_expression_list (Opt_expression_list x)) |\<subseteq>| V"
    show "preserves N K V
        (\<lambda>s. match_opt_expression_list source shortcut_options (Opt_expression_list x) s ctx)"
    proof (cases x)
      case None
      then show ?thesis by (simp add: preserves_def)
    next
      case (Some n)
      then have mem: "n \<in> set_option x" by simp
      from Some have "set (clauses_of_expression_list n)
          \<subseteq> set (clauses_of_opt_expression_list (Opt_expression_list x))" by simp
      from suggestions_sub [OF sub this] Opt_expression_list [OF mem] len
      have "preserves N K V (\<lambda>s. match_expression_list source shortcut_options n s ctx)" by blast
      with Some show ?thesis by simp
    qed
  qed
next
  case (Or_continuation x)
  show ?case
  proof (intro allI impI)
    fix ctx :: match_context_t
    assume len: "length (ctx_positionals ctx) \<le> N"
      and sub: "suggestions_of source shortcut_options
                  (clauses_of_or_continuation (Or_continuation x)) |\<subseteq>| V"
    show "preserves N K V
        (\<lambda>s. match_or_continuation source shortcut_options (Or_continuation x) s ctx)"
    proof (cases x)
      case None
      then show ?thesis by (simp add: preserves_def)
    next
      case (Some n)
      then have mem: "n \<in> set_option x" by simp
      from Some have "set (clauses_of_alternation_list n)
          \<subseteq> set (clauses_of_or_continuation (Or_continuation x))" by simp
      from suggestions_sub [OF sub this] Or_continuation [OF mem] len
      have "preserves N K V (\<lambda>s. match_alternation_list source shortcut_options n s ctx)" by blast
      with Some show ?thesis by simp
    qed
  qed
next
  case (Expression production opt_ellipsis simple_clause alternation_list)
  show ?case
  proof (intro allI impI)
    fix ctx :: match_context_t
    assume len: "length (ctx_positionals ctx) \<le> N"
      and sub: "suggestions_of source shortcut_options (clauses_of_expression
                  (Expression production opt_ellipsis simple_clause alternation_list)) |\<subseteq>| V"
    let ?e = "Expression production opt_ellipsis simple_clause alternation_list"
    have alt: "preserves N K V (\<lambda>s. match_alternation_list source shortcut_options n s
                 (ctx\<lparr>is_in_square_brackets := b\<rparr>))"
      if n: "alternation_list = Some n" for n b
    proof -
      from n have mem: "n \<in> set_option alternation_list" by simp
      from n have "set (clauses_of_alternation_list n) \<subseteq> set (clauses_of_expression ?e)" by simp
      from suggestions_sub [OF sub this] Expression [OF mem] len
      show ?thesis by simp
    qed
    have group: "preserves N K V (\<lambda>s. case alternation_list of
             None \<Rightarrow> Some (Inr [])
           | Some n \<Rightarrow>
               bind_out (match_alternation_list source shortcut_options n s
                           (ctx\<lparr>is_in_square_brackets := b\<rparr>)) (\<lambda>result.
                 if has_ellipsis opt_ellipsis
                 then rematch (\<lambda>s. match_alternation_list source shortcut_options n s
                                       (ctx\<lparr>is_in_square_brackets := b\<rparr>)) result result
                 else Some (Inr result)))" for b
    proof (rule preserves_case_option [of alternation_list N K V
        "\<lambda>n s. bind_out (match_alternation_list source shortcut_options n s
                           (ctx\<lparr>is_in_square_brackets := b\<rparr>)) (\<lambda>result.
                 if has_ellipsis opt_ellipsis
                 then rematch (\<lambda>s. match_alternation_list source shortcut_options n s
                                       (ctx\<lparr>is_in_square_brackets := b\<rparr>)) result result
                 else Some (Inr result))"])
      fix n
      assume n: "alternation_list = Some n"
      note a = alt [OF n, of b]
      show "preserves N K V (\<lambda>s. bind_out (match_alternation_list source shortcut_options n s
                           (ctx\<lparr>is_in_square_brackets := b\<rparr>)) (\<lambda>result.
                 if has_ellipsis opt_ellipsis
                 then rematch (\<lambda>s. match_alternation_list source shortcut_options n s
                                       (ctx\<lparr>is_in_square_brackets := b\<rparr>)) result result
                 else Some (Inr result)))"
        by (rule preserves_bind [OF a]) (rule preserves_list_ellipsis [OF a])
    qed
    consider "production = 0" | "production = 1" | "production = 2" | "production = 3"
      | "production > 3" by linarith
    then show "preserves N K V (\<lambda>s. match_expression source shortcut_options ?e s ctx)"
    proof cases
      case 1
      show ?thesis
      proof (cases simple_clause)
        case None
        with 1 show ?thesis by (simp add: preserves_def)
      next
        case (Some n)
        then have "set (clauses_of_simple_clause n) \<subseteq> set (clauses_of_expression ?e)" by simp
        from preserves_simple_clause [OF len suggestions_sub [OF sub this]]
        have a: "preserves N K V (\<lambda>s. Some (match_simple_clause source n s ctx))" .
        have "preserves N K V (\<lambda>s. bind_out (Some (match_simple_clause source n s ctx)) (\<lambda>result.
               if has_ellipsis opt_ellipsis
               then rematch (\<lambda>s. Some (match_simple_clause source n s ctx)) result result
               else Some (Inr result)))"
          by (rule preserves_bind [OF a]) (rule preserves_list_ellipsis [OF a])
        with 1 Some show ?thesis by simp
      qed
    next
      case 2
      with group [of False] show ?thesis by simp
    next
      case 3
      have "preserves N K V (\<lambda>s. bind_out (case alternation_list of
             None \<Rightarrow> Some (Inr [])
           | Some n \<Rightarrow>
               bind_out (match_alternation_list source shortcut_options n s
                           (ctx\<lparr>is_in_square_brackets := True\<rparr>)) (\<lambda>result.
                 if has_ellipsis opt_ellipsis
                 then rematch (\<lambda>s. match_alternation_list source shortcut_options n s
                                       (ctx\<lparr>is_in_square_brackets := True\<rparr>)) result result
                 else Some (Inr result))) (\<lambda>result. Some (Inr (result @ [s]))))"
        by (rule preserves_bind [OF group [of True]]) (rule preserves_list_snoc)
      with 3 show ?thesis by simp
    next
      case 4
      from preserves_options_shortcut [of source shortcut_options V N K ctx]
        suggestions_of_shortcut [of source shortcut_options "clauses_of_expression ?e"] sub
      have "preserves N K V (\<lambda>s. Some (match_options_shortcut source shortcut_options s ctx))"
        by blast
      with 4 show ?thesis by simp
    next
      case 5
      then show ?thesis by (simp add: preserves_def)
    qed
  qed
qed


lemma match_usage_preserves:
  fixes ctx :: match_context_t
  assumes len: "length (ctx_positionals ctx) \<le> N"
  shows "suggestions_of source shortcut_options (clauses_of_usage u) |\<subseteq>| V \<Longrightarrow>
         preserves N K V (\<lambda>s. match_usage source shortcut_options u s ctx)"
proof (induction u)
  case (Usage prog_name alternation_list next_usage)
  let ?u = "Usage prog_name alternation_list next_usage"
  note sub = Usage.prems
  have main: "preserves N K V (\<lambda>s. case alternation_list of
                     Some n \<Rightarrow> match_alternation_list source shortcut_options n s ctx
                   | None \<Rightarrow> Some (Inr [s]))"
  proof (cases alternation_list)
    case None
    then show ?thesis by (simp add: preserves_def)
  next
    case (Some n)
    then have "set (clauses_of_alternation_list n) \<subseteq> set (clauses_of_usage ?u)" by simp
    from suggestions_sub [OF sub this] match_tree_preserves(1) [of N source shortcut_options n V K] len
    have "preserves N K V (\<lambda>s. match_alternation_list source shortcut_options n s ctx)" by blast
    with Some show ?thesis by simp
  qed
  have nxt: "preserves N K V (\<lambda>s. case next_usage of None \<Rightarrow> Some (Inr [])
                   | Some n \<Rightarrow> match_usage source shortcut_options n s ctx)"
  proof (rule preserves_case_option
      [of next_usage N K V "\<lambda>n s. match_usage source shortcut_options n s ctx"])
    fix n
    assume n: "next_usage = Some n"
    then have mem: "n \<in> set_option next_usage" by simp
    from n have "set (clauses_of_usage n) \<subseteq> set (clauses_of_usage ?u)" by simp
    from Usage.IH [OF mem suggestions_sub [OF sub this]]
    show "preserves N K V (\<lambda>s. match_usage source shortcut_options n s ctx)" .
  qed
  show ?case
    unfolding preserves_def
  proof (intro allI impI)
    fix s
    assume ws: "within N K V s"
    let ?s1 = "s\<lparr>next_positional_index := next_positional_index s + 1\<rparr>"
    show "(\<exists>r. match_usage source shortcut_options ?u s ctx = Some r)
      \<and> (\<forall>ss. match_usage source shortcut_options ?u s ctx = Some (Inr ss)
            \<longrightarrow> (\<forall>s' \<in> set ss. within N K V s'))"
    proof (cases "has_more_positionals ctx s")
      case (Inl e)
      then show ?thesis by simp
    next
      case (Inr more)
      show ?thesis
      proof (cases "more \<and> \<not> range_empty prog_name")
        case False
        with Inr show ?thesis by auto
      next
        case True
        with Inr have "next_positional_index s < length (ctx_positionals ctx)"
          by (auto simp: has_more_positionals_def split: if_splits)
        with ws len have w1: "within N K V ?s1" by (simp add: within_def)
        from preservesD(1) [OF main w1] obtain r1 where r1: "(case alternation_list of
                     Some n \<Rightarrow> match_alternation_list source shortcut_options n ?s1 ctx
                   | None \<Rightarrow> Some (Inr [?s1])) = Some r1" by blast
        show ?thesis
        proof (cases r1)
          case (Inl e)
          with True Inr r1 show ?thesis by simp
        next
          case main_branch: (Inr main_branch)
          with r1 preservesD(2) [OF main w1, of main_branch]
          have wm: "\<forall>s' \<in> set main_branch. within N K V s'" by blast
          from preservesD(1) [OF nxt ws] obtain r2 where r2: "(case next_usage of
                     None \<Rightarrow> Some (Inr [])
                   | Some n \<Rightarrow> match_usage source shortcut_options n s ctx) = Some r2" by blast
          show ?thesis
          proof (cases r2)
            case (Inl e)
            with True Inr r1 main_branch r2 show ?thesis by simp
          next
            case next_branch: (Inr next_branch)
            with r2 preservesD(2) [OF nxt ws, of next_branch]
            have wn: "\<forall>s' \<in> set next_branch. within N K V s'" by blast
            from True Inr r1 main_branch r2 next_branch
            have "match_usage source shortcut_options ?u s ctx
                = Some (Inr (main_branch @ next_branch))" by simp
            with wm wn show ?thesis by auto
          qed
        qed
      qed
    qed
  qed
qed

lemma within_self:
  "within (max (next_positional_index s) n) (length (consumed_options s))
     (suggested_next_arguments s |\<union>| V) s"
  by (simp add: within_def)

lemma match_expression_returns:
  "\<exists>r. match_expression source shortcut_options e state ctx = Some r"
proof -
  let ?N = "max (next_positional_index state) (length (ctx_positionals ctx))"
  let ?K = "length (consumed_options state)"
  let ?V = "suggested_next_arguments state
            |\<union>| suggestions_of source shortcut_options (clauses_of_expression e)"
  have "preserves ?N ?K ?V (\<lambda>s. match_expression source shortcut_options e s ctx)"
    using match_tree_preserves(5) [of ?N source shortcut_options e ?V ?K] by simp
  from preservesD(1) [OF this within_self] show ?thesis .
qed

lemma match_usage_returns:
  "\<exists>r. match_usage source shortcut_options u state ctx = Some r"
proof -
  let ?N = "max (next_positional_index state) (length (ctx_positionals ctx))"
  let ?K = "length (consumed_options state)"
  let ?V = "suggested_next_arguments state
            |\<union>| suggestions_of source shortcut_options (clauses_of_usage u)"
  have "preserves ?N ?K ?V (\<lambda>s. match_usage source shortcut_options u s ctx)"
    by (rule match_usage_preserves) simp_all
  from preservesD(1) [OF this within_self] show ?thesis .
qed

lemma match_argv_returns:
  "\<exists>r. match_argv source parse_tree shortcut_options all_static_arguments av flags positionals
         resolved_options all_options all_variables = Some r"
proof -
  obtain r where "match_usage source shortcut_options parse_tree (init_state resolved_options)
      (match_context flags positionals resolved_options av) = Some r"
    using match_usage_returns by blast
  then show ?thesis
    by (cases r) (simp_all add: match_argv_def Let_def)
qed

text \<open>
  C3. In the loop of an ellipsis the child is applied again by \<^verbatim>\<open>try_match\<close> under
  \<^verbatim>\<open>require_progress\<close>: every state it keeps comes from a state of the list it was
  given and has a strictly greater progress than that state. The progress of the
  states of one match is bounded (by the positionals, the resolved options and the
  strings that the doc can suggest), so the loop cannot go on for ever: the match of an
  expression, the match of a usage and \<^verbatim>\<open>match_argv\<close> return (states or an exception)
  for every tree, state, context, argv and flags.
\<close>

theorem ellipsis_progress_and_termination:
  "(try_match_states m True states = Some (Inr out) \<longrightarrow>
      (\<forall>s' \<in> set out. \<exists>s \<in> set states. \<exists>child.
          m s = Some (Inr child) \<and> s' \<in> set child \<and> progress s < progress s'))
   \<and> (\<exists>r. match_expression source shortcut_options e state ctx = Some r)
   \<and> (\<exists>r. match_usage source shortcut_options parse_tree state ctx = Some r)
   \<and> (\<exists>r. match_argv source parse_tree shortcut_options all_static_arguments av flags
              positionals resolved_options all_options all_variables = Some r)"
proof (intro conjI impI)
  assume "try_match_states m True states = Some (Inr out)"
  then show "\<forall>s' \<in> set out. \<exists>s \<in> set states. \<exists>child.
          m s = Some (Inr child) \<and> s' \<in> set child \<and> progress s < progress s'"
    by (rule try_match_states_progress)
next
  show "\<exists>r. match_expression source shortcut_options e state ctx = Some r"
    by (rule match_expression_returns)
next
  show "\<exists>r. match_usage source shortcut_options parse_tree state ctx = Some r"
    by (rule match_usage_returns)
next
  show "\<exists>r. match_argv source parse_tree shortcut_options all_static_arguments av flags
              positionals resolved_options all_options all_variables = Some r"
    by (rule match_argv_returns)
qed

text \<open>
  The fixed word \<open>a\<close> with an ellipsis and no positional, under the two flags of
  completion: the first match suggests \<open>a\<close>, which is progress; the second match gives
  the same state, which is dropped, and the loop ends.
\<close>

theorem ellipsis_progress_and_termination_witness:
  "try_match_states
     (\<lambda>s. Some (match_simple_clause ''a'' (Simple_clause None (Some (Fixed_clause (make_range 0 1))) None) s
                  (match_context {flag_generate_suggestions, flag_match_allow_incomplete} [] [] [])))
     True [init_state []]
   = Some (Inr [(init_state [])\<lparr>suggested_next_arguments := {|''a''|}\<rparr>])
   \<and> progress (init_state []) < progress ((init_state [])\<lparr>suggested_next_arguments := {|''a''|}\<rparr>)
   \<and> match_expression ''a'' []
       (Expression 0 (Some 1) (Some (Simple_clause None (Some (Fixed_clause (make_range 0 1))) None)) None)
       (init_state [])
       (match_context {flag_generate_suggestions, flag_match_allow_incomplete} [] [] [])
     = Some (Inr [(init_state [])\<lparr>suggested_next_arguments := {|''a''|}\<rparr>])"
proof -
  let ?ctx = "match_context {flag_generate_suggestions, flag_match_allow_incomplete} [] [] []"
  let ?sc = "Simple_clause None (Some (Fixed_clause (make_range 0 1))) None"
  let ?m = "\<lambda>s. Some (match_simple_clause ''a'' ?sc s ?ctx)"
  let ?s0 = "init_state []"
  let ?s1 = "(init_state [])\<lparr>suggested_next_arguments := {|''a''|}\<rparr>"
  have m0: "match_simple_clause ''a'' ?sc ?s0 ?ctx = Inr [?s1]"
    by (simp add: match_simple_clause_def match_fixed_clause_def has_more_positionals_def
        match_context_def init_state_def range_text_def substr_def make_range_def)
  have m1: "match_simple_clause ''a'' ?sc ?s1 ?ctx = Inr [?s1]"
    by (simp add: match_simple_clause_def match_fixed_clause_def has_more_positionals_def
        match_context_def init_state_def range_text_def substr_def make_range_def)
  have p0: "progress ?s0 = 0" by (simp add: progress_def init_state_def)
  have p1: "progress ?s1 = 1" by (simp add: progress_def init_state_def fcard_finsert_if)
  have t0: "try_match_states ?m True [?s0] = Some (Inr [?s1])"
    by (simp add: m0 keep_progress_def p0 p1 del: One_nat_def)
  have t1: "try_match_states ?m True [?s1] = Some (Inr [])"
    by (simp add: m1 keep_progress_def p1 del: One_nat_def)
  have r0: "rematch ?m [?s1] [] = Some (Inr [?s1])"
    by (subst rematch.simps) simp
  have r: "rematch ?m [?s1] [?s1] = Some (Inr [?s1])"
    by (subst rematch.simps) (simp add: m1 keep_progress_def p1 r0 del: One_nat_def)
  have e: "match_expression ''a'' [] (Expression 0 (Some 1) (Some ?sc) None) ?s0 ?ctx
      = Some (Inr [?s1])"
    by (simp add: m0 has_ellipsis_def r del: One_nat_def)
  from ellipsis_progress_and_termination [of ?m "[?s0]" "[?s1]"] t0
  have "progress ?s0 < progress ?s1" by (auto simp: m0 simp del: One_nat_def)
  with t0 e show ?thesis by simp
qed

subsection \<open>The unused arguments of a state\<close>

lemma set_at_Inr:
  "set_at used i b = Inr used' \<Longrightarrow> i < length used \<and> used' = used[i := b]"
  by (auto simp: set_at_def split: if_splits)

lemma mark_positionals_Inr:
  "mark_positionals ps is used = Inr used' \<Longrightarrow>
   length used' = length used \<and>
   (\<forall>j < length used. used' ! j \<longleftrightarrow> used ! j \<or> j \<in> set (map (\<lambda>i. ps ! i) is))"
proof (induction "is" arbitrary: used)
  case Nil
  then show ?case by simp
next
  case (Cons i "is")
  from Cons.prems obtain used1 where u1: "set_at used (ps ! i) True = Inr used1"
    and rest: "mark_positionals ps is used1 = Inr used'"
    by (auto simp: bind_exn_eq_Inr split: if_splits)
  from set_at_Inr [OF u1] have s: "ps ! i < length used" "used1 = used[ps ! i := True]" by auto
  from Cons.IH [OF rest] s show ?case
    by (auto simp: nth_list_update)
qed

lemma mark_consumed_Inr:
  "mark_consumed rs consumed is used = Inr used' \<Longrightarrow>
   length used' = length used \<and>
   (\<forall>j < length used. used' ! j \<longleftrightarrow> used ! j \<or>
      j \<in> set (concat (map (\<lambda>i. if consumed ! i
                           then name_idx_in_argv (rs ! i)
                                # (case value_idx_in_argv (rs ! i) of None \<Rightarrow> [] | Some v \<Rightarrow> [v])
                           else []) is)))"
proof (induction "is" arbitrary: used)
  case Nil
  then show ?case by simp
next
  case (Cons i "is")
  show ?case
  proof (cases "consumed ! i")
    case False
    with Cons.prems have "mark_consumed rs consumed is used = Inr used'" by simp
    from Cons.IH [OF this] False show ?thesis by simp
  next
    case True
    with Cons.prems obtain used1 used2 where
      u1: "set_at used (name_idx_in_argv (rs ! i)) True = Inr used1"
      and u2: "(case value_idx_in_argv (rs ! i) of None \<Rightarrow> Inr used1
                | Some v \<Rightarrow> set_at used1 v True) = Inr used2"
      and rest: "mark_consumed rs consumed is used2 = Inr used'"
      by (auto simp: bind_exn_eq_Inr split: if_splits)
    from set_at_Inr [OF u1] have s1: "name_idx_in_argv (rs ! i) < length used"
      "used1 = used[name_idx_in_argv (rs ! i) := True]" by auto
    show ?thesis
    proof (cases "value_idx_in_argv (rs ! i)")
      case None
      with u2 have "used2 = used1" by simp
      with Cons.IH [OF rest] s1 True None show ?thesis
        by (auto simp: nth_list_update)
    next
      case (Some v)
      with u2 have "set_at used1 v True = Inr used2" by simp
      from set_at_Inr [OF this] have s2: "v < length used1" "used2 = used1[v := True]" by auto
      with Cons.IH [OF rest] s1 True Some show ?thesis
        by (auto simp: nth_list_update)
    qed
  qed
qed

lemma unmark_unconsumed_Inr:
  "unmark_unconsumed rs consumed is used = Inr used' \<Longrightarrow>
   length used' = length used \<and>
   (\<forall>j < length used. used' ! j \<longleftrightarrow> used ! j \<and>
      j \<notin> set (concat (map (\<lambda>i. if \<not> consumed ! i then [name_idx_in_argv (rs ! i)] else []) is)))"
proof (induction "is" arbitrary: used)
  case Nil
  then show ?case by simp
next
  case (Cons i "is")
  show ?case
  proof (cases "consumed ! i")
    case True
    with Cons.prems have "unmark_unconsumed rs consumed is used = Inr used'" by simp
    from Cons.IH [OF this] True show ?thesis by simp
  next
    case False
    with Cons.prems obtain used1 where
      u1: "set_at used (name_idx_in_argv (rs ! i)) False = Inr used1"
      and rest: "unmark_unconsumed rs consumed is used1 = Inr used'"
      by (auto simp: bind_exn_eq_Inr split: if_splits)
    from set_at_Inr [OF u1] have s1: "name_idx_in_argv (rs ! i) < length used"
      "used1 = used[name_idx_in_argv (rs ! i) := False]" by auto
    with Cons.IH [OF rest] False show ?thesis
      by (auto simp: nth_list_update)
  qed
qed

text \<open>
  C4 (amended). The unused arguments that \<^verbatim>\<open>unused_arguments\<close> returns for a state, and
  so for the best state, are indexes of argv, and they are exactly the indexes of argv
  outside the set of the indexes used by the consumed positionals and by the consumed
  options (name and value) that are not the name of an option left unconsumed: they
  are disjoint from that set, and an index that is the name of an unconsumed option is
  unused even when a consumed option has the same name index.
\<close>

theorem unused_arguments_characterised:
  assumes "unused_arguments ctx state = Inr unused"
  shows "set unused \<subseteq> {0..<length (ctx_argv ctx)}
       \<and> set unused \<inter> (consumed_positional_indexes ctx state \<union> consumed_option_indexes ctx state
                        - unconsumed_name_indexes ctx state) = {}
       \<and> set unused = {0..<length (ctx_argv ctx)}
            - (consumed_positional_indexes ctx state \<union> consumed_option_indexes ctx state
               - unconsumed_name_indexes ctx state)"
proof -
  let ?L = "length (ctx_argv ctx)"
  from assms obtain used1 used2 used3 where
    u1: "mark_positionals (ctx_positionals ctx) [0..<next_positional_index state]
           (replicate ?L False) = Inr used1"
    and u2: "mark_consumed (ctx_resolved_options ctx) (consumed_options state)
               [0..<length (consumed_options state)] used1 = Inr used2"
    and u3: "unmark_unconsumed (ctx_resolved_options ctx) (consumed_options state)
               [0..<length (consumed_options state)] used2 = Inr used3"
    and un: "unused = filter (\<lambda>i. \<not> used3 ! i) [0..<length used3]"
    by (auto simp: unused_arguments_def bind_exn_eq_Inr split: if_splits)
  note m1 = mark_positionals_Inr [OF u1]
  note m2 = mark_consumed_Inr [OF u2]
  note m3 = unmark_unconsumed_Inr [OF u3]
  from m1 m2 m3 have len: "length used3 = ?L" "length used2 = ?L" "length used1 = ?L" by simp_all
  have char: "j \<in> set unused \<longleftrightarrow> j < ?L \<and> \<not> (j \<in> consumed_positional_indexes ctx state \<union>
      consumed_option_indexes ctx state - unconsumed_name_indexes ctx state)" for j
  proof (cases "j < ?L")
    case False
    with un len show ?thesis by auto
  next
    case True
    with m1 have a: "used1 ! j \<longleftrightarrow> j \<in> consumed_positional_indexes ctx state"
      by (simp add: consumed_positional_indexes_def)
    from True m2 len have b: "used2 ! j \<longleftrightarrow> used1 ! j \<or> j \<in> consumed_option_indexes ctx state"
      by (simp add: consumed_option_indexes_def)
    from True m3 len have c: "used3 ! j \<longleftrightarrow> used2 ! j \<and> j \<notin> unconsumed_name_indexes ctx state"
      by (simp add: unconsumed_name_indexes_def)
    from un len True have "j \<in> set unused \<longleftrightarrow> \<not> used3 ! j" by auto
    with a b c True show ?thesis by auto
  qed
  have eq: "set unused = {0..<?L}
            - (consumed_positional_indexes ctx state \<union> consumed_option_indexes ctx state
               - unconsumed_name_indexes ctx state)"
  proof (rule set_eqI)
    fix j
    show "j \<in> set unused \<longleftrightarrow> j \<in> {0..<?L}
            - (consumed_positional_indexes ctx state \<union> consumed_option_indexes ctx state
               - unconsumed_name_indexes ctx state)"
      using char [of j] by simp
  qed
  then show ?thesis by blast
qed

text \<open>
  The state that consumed the first of the two options of \<open>-vv\<close>: index 1 is the name
  of a consumed option and of an unconsumed one, and it is unused.
\<close>

lemma returns_returned: "returns r \<Longrightarrow> r = Some (Inr (returned r))"
  by (auto simp: returns_def returned_def split: option.splits sum.splits)

theorem unused_arguments_characterised_witness:
  "unused_arguments
     (match_context {} [0]
        [resolved_option option_v 1 None (make_range 0 0),
         resolved_option option_v 1 None (make_range 0 0)] [''prog'', ''-vv''])
     \<lparr>option_map = Map.empty, next_positional_index = 1, consumed_options = [True, False],
      suggested_next_arguments = {||}\<rparr> = Inr [1]
   \<and> set [1::nat] = {0..<length [''prog'', ''-vv'']} - ({0} \<union> {1} - {1})"
proof -
  let ?ctx = "match_context {} [0]
        [resolved_option option_v 1 None (make_range 0 0),
         resolved_option option_v 1 None (make_range 0 0)] [''prog'', ''-vv'']"
  let ?s = "\<lparr>option_map = Map.empty, next_positional_index = 1, consumed_options = [True, False],
      suggested_next_arguments = {||}\<rparr>"
  have u: "unused_arguments ?ctx ?s = Inr [1]" by code_simp
  have a: "consumed_positional_indexes ?ctx ?s = {0}" by code_simp
  have b: "consumed_option_indexes ?ctx ?s = {1}" by code_simp
  have c: "unconsumed_name_indexes ?ctx ?s = {1}" by code_simp
  have l: "ctx_argv ?ctx = [''prog'', ''-vv'']" by (simp add: match_context_def)
  from unused_arguments_characterised [OF u] have "set [1::nat] = {0..<length (ctx_argv ?ctx)}
            - (consumed_positional_indexes ?ctx ?s \<union> consumed_option_indexes ?ctx ?s
               - unconsumed_name_indexes ?ctx ?s)" by blast
  then have "set [1::nat] = {0..<length [''prog'', ''-vv'']} - ({0} \<union> {1} - {1})"
    by (simp only: a b c l)
  with u show ?thesis by blast
qed

text \<open>
  The claim as stated fails on the usage \<open>prog -v\<close> and the argv \<open>prog -vv\<close>: the
  tokenizer resolves two options \<open>-v\<close>, both at index 1; the only state of the match
  has consumed the first of them, so index 1 is used by a consumed option; and the parse
  returns index 1 as unused.
\<close>

theorem unused_name_slot_counterexample:
  "separate_argv_into_options_and_positionals ''prog -v'' [''prog'', ''-vv''] [option_v] {}
      [] [] (Some []) None
     = Inr \<lparr>idx = 2, positionals_out = [0],
            resolved_options_out = [resolved_option option_v 1 None (make_range 0 0),
                                    resolved_option option_v 1 None (make_range 0 0)],
            errors = Some [], suggestion = None\<rparr>
   \<and> map (\<lambda>s. (consumed_options s,
               unused_arguments (match_context {} [0]
                  [resolved_option option_v 1 None (make_range 0 0),
                   resolved_option option_v 1 None (make_range 0 0)] [''prog'', ''-vv'']) s,
               consumed_option_indexes (match_context {} [0]
                  [resolved_option option_v 1 None (make_range 0 0),
                   resolved_option option_v 1 None (make_range 0 0)] [''prog'', ''-vv'']) s))
       (returned (match_usage ''prog -v'' [] usage_prog_v
          (init_state [resolved_option option_v 1 None (make_range 0 0),
                       resolved_option option_v 1 None (make_range 0 0)])
          (match_context {} [0]
             [resolved_option option_v 1 None (make_range 0 0),
              resolved_option option_v 1 None (make_range 0 0)] [''prog'', ''-vv''])))
     = [([True, False], Inr [1], {1})]
   \<and> (case best_assignment_for_argv ''prog -v'' usage_prog_v [] [option_v] [] []
              [''prog'', ''-vv''] {} [] of
         Some (Inr (m, unused, errs)) \<Rightarrow> Some unused | _ \<Rightarrow> None) = Some [1]"
  by code_simp

subsection \<open>The choice of the best state\<close>

lemma first_minimum_iff:
  "first_minimum ctx states k u \<longleftrightarrow>
     k < length states \<and> unused_arguments ctx (states ! k) = Inr u
     \<and> (\<forall>j < length states. \<forall>u'. unused_arguments ctx (states ! j) = Inr u'
            \<longrightarrow> length u \<le> length u')
     \<and> (\<forall>j < k. \<forall>u'. unused_arguments ctx (states ! j) = Inr u' \<longrightarrow> length u < length u')"
  by (auto simp: first_minimum_def list_all_iff split: sum.splits)

lemma best_state_invariant:
  assumes "best_state ctx states (length pre) b bu = Inr (b', bu')"
    and "pre = [] \<longrightarrow> b = None"
    and "pre \<noteq> [] \<longrightarrow> (\<exists>k. b = Some k \<and> first_minimum ctx pre k bu)"
  shows "(pre @ states = [] \<longrightarrow> b' = None \<and> bu' = bu)
       \<and> (pre @ states \<noteq> [] \<longrightarrow> (\<exists>k. b' = Some k \<and> first_minimum ctx (pre @ states) k bu'))"
  using assms
proof (induction states arbitrary: pre b bu)
  case Nil
  then show ?case by auto
next
  case (Cons s rest)
  let ?i = "length pre"
  from Cons.prems(1) obtain u where u: "unused_arguments ctx s = Inr u"
    by (auto simp: bind_exn_eq_Inr)
  have nth_pre: "(pre @ [s]) ! j = pre ! j" if "j < length pre" for j
    using that by (simp add: nth_append)
  have nth_all: "(pre @ s # rest) ! j = (pre @ [s]) ! j" if "j < Suc (length pre)" for j
    using that by (auto simp: nth_append less_Suc_eq)
  show ?case
  proof (cases "?i = 0 \<or> length u < length bu")
    case better: True
    have fm: "first_minimum ctx (pre @ [s]) ?i u"
      unfolding first_minimum_iff
    proof (intro conjI allI impI)
      show "?i < length (pre @ [s])" by simp
      show "unused_arguments ctx ((pre @ [s]) ! ?i) = Inr u" using u by simp
    next
      fix j u'
      assume j: "j < length (pre @ [s])" and u': "unused_arguments ctx ((pre @ [s]) ! j) = Inr u'"
      show "length u \<le> length u'"
      proof (cases "j < ?i")
        case True
        then have ne: "pre \<noteq> []" by auto
        with Cons.prems(3) obtain k where "first_minimum ctx pre k bu" by auto
        with True u' nth_pre [OF True] have "length bu \<le> length u'"
          by (auto simp: first_minimum_iff)
        with better ne show ?thesis by auto
      next
        case False
        with j have "j = ?i" by simp
        with u u' show ?thesis by simp
      qed
    next
      fix j u'
      assume j: "j < ?i" and u': "unused_arguments ctx ((pre @ [s]) ! j) = Inr u'"
      then have ne: "pre \<noteq> []" by auto
      with Cons.prems(3) obtain k where "first_minimum ctx pre k bu" by auto
      with j u' nth_pre [OF j] have "length bu \<le> length u'"
        by (auto simp: first_minimum_iff)
      with better ne show "length u < length u'" by auto
    qed
    show ?thesis
    proof (cases "length u = 0")
      case True
      with Cons.prems(1) u better have res: "b' = Some ?i" "bu' = u" by auto
      have "first_minimum ctx (pre @ s # rest) ?i u"
        unfolding first_minimum_iff
      proof (intro conjI allI impI)
        show "?i < length (pre @ s # rest)" by simp
        show "unused_arguments ctx ((pre @ s # rest) ! ?i) = Inr u" using u by simp
      next
        fix j and u' :: "nat list"
        show "length u \<le> length u'" using True by simp
      next
        fix j u'
        assume j: "j < ?i" and u': "unused_arguments ctx ((pre @ s # rest) ! j) = Inr u'"
        from j have "(pre @ s # rest) ! j = (pre @ [s]) ! j" by (simp add: nth_all)
        with fm j u' show "length u < length u'" by (auto simp: first_minimum_iff)
      qed
      with res show ?thesis by auto
    next
      case False
      with Cons.prems(1) u better
      have rec: "best_state ctx rest (length (pre @ [s])) (Some ?i) u = Inr (b', bu')" by auto
      from Cons.IH [OF rec] fm show ?thesis by simp
    qed
  next
    case worse: False
    then have ne: "pre \<noteq> []" by auto
    with Cons.prems(3) obtain k where k: "b = Some k" "first_minimum ctx pre k bu" by auto
    from Cons.prems(1) u worse
    have rec: "best_state ctx rest (length (pre @ [s])) b bu = Inr (b', bu')" by auto
    have fm: "first_minimum ctx (pre @ [s]) k bu"
      unfolding first_minimum_iff
    proof (intro conjI allI impI)
      from k show "k < length (pre @ [s])" by (auto simp: first_minimum_iff)
      from k show "unused_arguments ctx ((pre @ [s]) ! k) = Inr bu"
        by (auto simp: first_minimum_iff nth_append)
    next
      fix j u'
      assume j: "j < length (pre @ [s])" and u': "unused_arguments ctx ((pre @ [s]) ! j) = Inr u'"
      show "length bu \<le> length u'"
      proof (cases "j < ?i")
        case True
        with k u' nth_pre [OF True] show ?thesis by (auto simp: first_minimum_iff)
      next
        case False
        with j have "j = ?i" by simp
        with u u' worse show ?thesis by auto
      qed
    next
      fix j u'
      assume j: "j < k" and u': "unused_arguments ctx ((pre @ [s]) ! j) = Inr u'"
      from k have "k < length pre" by (simp add: first_minimum_iff)
      with j have jp: "j < length pre" by simp
      with k j u' nth_pre [OF jp] show "length bu < length u'" by (auto simp: first_minimum_iff)
    qed
    from Cons.IH [OF rec] fm k show ?thesis by simp
  qed
qed

lemma best_state_first_minimum:
  assumes "best_state ctx states 0 None [] = Inr (b, bu)"
  shows "(states = [] \<longrightarrow> b = None) \<and>
         (states \<noteq> [] \<longrightarrow> (\<exists>k. b = Some k \<and> first_minimum ctx states k bu))"
  using best_state_invariant [of ctx states "[]" None "[]" b bu] assms by simp

lemma finalize_option_map_unset:
  "flag_generate_empty_args \<notin> flags \<Longrightarrow>
   finalize_option_map source all_static_arguments m all_options all_variables flags = Inr m"
  by (simp add: finalize_option_map_def)

text \<open>
  C1. When \<^verbatim>\<open>match_argv\<close> returns a map and a list of unused indexes, and \<open>result\<close> are
  the states of the match of the tree: if there is no state, the unused indexes are
  all the indexes of argv (and the map is the finalized empty map); otherwise the
  unused indexes are those of a state \<open>k\<close> of the result that has the fewest unused
  arguments and is the first such state, and the map is the finalized option map of
  that state, which is the option map itself without \<^verbatim>\<open>flag_generate_empty_args\<close>.
\<close>

theorem match_argv_best_state:
  assumes m: "match_argv source parse_tree shortcut_options all_static_arguments av flags
                positionals resolved_options all_options all_variables = Some (Inr (m, unused))"
    and r: "match_usage source shortcut_options parse_tree (init_state resolved_options)
              (match_context flags positionals resolved_options av) = Some (Inr result)"
  shows "(result = [] \<longrightarrow>
            unused = [0..<length av]
            \<and> finalize_option_map source all_static_arguments Map.empty all_options
                 all_variables flags = Inr m)
       \<and> (result \<noteq> [] \<longrightarrow>
            (\<exists>k. first_minimum (match_context flags positionals resolved_options av) result k unused
               \<and> finalize_option_map source all_static_arguments (option_map (result ! k))
                    all_options all_variables flags = Inr m
               \<and> (flag_generate_empty_args \<notin> flags \<longrightarrow> m = option_map (result ! k))))"
proof -
  let ?ctx = "match_context flags positionals resolved_options av"
  from m r obtain b bu where b: "best_state ?ctx result 0 None [] = Inr (b, bu)"
    and fin: "(case b of
               Some i \<Rightarrow>
                 bind_exn (finalize_option_map source all_static_arguments
                             (option_map (result ! i)) all_options all_variables flags)
                   (\<lambda>m. Inr (m, bu))
             | None \<Rightarrow>
                 bind_exn (finalize_option_map source all_static_arguments Map.empty
                             all_options all_variables flags)
                   (\<lambda>m. Inr (m, [0..<length av]))) = Inr (m, unused)"
    by (auto simp: match_argv_def Let_def bind_out_def bind_exn_eq_Inr)
  note bs = best_state_first_minimum [OF b]
  show ?thesis
  proof (rule conjI; rule impI)
    assume "result = []"
    with bs have "b = None" by simp
    with fin show "unused = [0..<length av]
            \<and> finalize_option_map source all_static_arguments Map.empty all_options
                 all_variables flags = Inr m"
      by (auto simp: bind_exn_eq_Inr)
  next
    assume "result \<noteq> []"
    with bs obtain k where k: "b = Some k" "first_minimum ?ctx result k bu" by auto
    with fin have "bu = unused" "finalize_option_map source all_static_arguments
        (option_map (result ! k)) all_options all_variables flags = Inr m"
      by (auto simp: bind_exn_eq_Inr)
    moreover from this have "flag_generate_empty_args \<notin> flags \<longrightarrow> m = option_map (result ! k)"
      by (auto simp: finalize_option_map_unset)
    ultimately show "\<exists>k. first_minimum ?ctx result k unused
               \<and> finalize_option_map source all_static_arguments (option_map (result ! k))
                    all_options all_variables flags = Inr m
               \<and> (flag_generate_empty_args \<notin> flags \<longrightarrow> m = option_map (result ! k))"
      using k by auto
  qed
qed

text \<open>
  The usages \<open>prog\<close> and \<open>prog <x>\<close> on the argv \<open>prog y\<close>: the first state leaves index
  1 unused, the second one nothing; the parse returns the map of the second.
\<close>

theorem match_argv_best_state_witness:
  "\<exists>m result.
     match_argv ''prog <x>'' usage_prog_x [] [] [''prog'', ''y''] {} [0, 1] [] [] []
       = Some (Inr (m, []))
     \<and> match_usage ''prog <x>'' [] usage_prog_x (init_state [])
         (match_context {} [0, 1] [] [''prog'', ''y'']) = Some (Inr result)
     \<and> map (unused_arguments (match_context {} [0, 1] [] [''prog'', ''y''])) result
         = [Inr [1], Inr []]
     \<and> first_minimum (match_context {} [0, 1] [] [''prog'', ''y'']) result 1 []
     \<and> m = option_map (result ! 1)
     \<and> m ''<x>'' = Some \<lparr>count = 0, values_a = [''y'']\<rparr>"
proof -
  let ?ctx = "match_context {} [0, 1] [] [''prog'', ''y'']"
  let ?usage = "match_usage ''prog <x>'' [] usage_prog_x (init_state []) ?ctx"
  let ?argv = "match_argv ''prog <x>'' usage_prog_x [] [] [''prog'', ''y''] {} [0, 1] [] [] []"
  let ?result = "returned ?usage"
  have "returns ?usage" by code_simp
  then have r: "?usage = Some (Inr ?result)" by (rule returns_returned)
  have "returns ?argv" by code_simp
  then obtain m unused where mu: "?argv = Some (Inr (m, unused))"
    by (auto simp: returns_def split: option.splits sum.splits)
  have "(case ?argv of Some (Inr (m, unused)) \<Rightarrow> unused = [] | _ \<Rightarrow> False)" by code_simp
  with mu have un: "unused = []" by simp
  have "(case ?argv of Some (Inr (m, unused)) \<Rightarrow>
           m ''<x>'' = Some \<lparr>count = 0, values_a = [''y'']\<rparr> | _ \<Rightarrow> False)" by code_simp
  with mu have mx: "m ''<x>'' = Some \<lparr>count = 0, values_a = [''y'']\<rparr>" by simp
  have us: "map (unused_arguments ?ctx) ?result = [Inr [1], Inr []]" by code_simp
  have "length (map (unused_arguments ?ctx) ?result) = 2" by (simp only: us list.size length_Cons)
  then have len: "length ?result = 2" by (simp only: length_map)
  have "map (unused_arguments ?ctx) ?result ! 0 = Inr [1]" by (simp only: us nth_Cons_0)
  with len have u0: "unused_arguments ?ctx (?result ! 0) = Inr [1]" by (simp only: nth_map)
  from len have ne: "?result \<noteq> []" by auto
  have flag: "flag_generate_empty_args \<notin> ({} :: parse_flags_t)" by simp
  from match_argv_best_state [OF mu r] ne obtain k where
    k: "first_minimum ?ctx ?result k unused"
    and fin: "finalize_option_map ''prog <x>'' [] (option_map (?result ! k)) [] [] {} = Inr m"
    by blast
  from k have kl0: "k < length ?result"
    and ku0: "unused_arguments ?ctx (?result ! k) = Inr unused"
    unfolding first_minimum_iff by blast+
  from kl0 have kl: "k < 2" by (simp only: len)
  from ku0 have ku: "unused_arguments ?ctx (?result ! k) = Inr []" by (simp only: un)
  have k1: "k = 1"
  proof (rule ccontr)
    assume "k \<noteq> 1"
    with kl have "k = 0" by simp
    with ku have "unused_arguments ?ctx (?result ! 0) = Inr []" by (simp only:)
    with u0 have "(Inr [1] :: exn + nat list) = Inr []" by (simp only:)
    then show False by simp
  qed
  from fin have "Inr (option_map (?result ! k)) = (Inr m :: exn + option_map_t)"
    by (simp only: finalize_option_map_unset [OF flag])
  then have "m = option_map (?result ! k)" by (simp only: sum.inject)
  then have m1: "m = option_map (?result ! 1)" by (simp only: k1)
  from mu have c1: "?argv = Some (Inr (m, []))" by (simp only: un)
  from k have c4: "first_minimum ?ctx ?result 1 []" by (simp only: k1 un)
  show ?thesis
  proof (intro exI conjI)
    show "?argv = Some (Inr (m, []))" by (rule c1)
    show "?usage = Some (Inr ?result)" by (rule r)
    show "map (unused_arguments ?ctx) ?result = [Inr [1], Inr []]" by (rule us)
    show "first_minimum ?ctx ?result 1 []" by (rule c4)
    show "m = option_map (?result ! 1)" by (rule m1)
    show "m ''<x>'' = Some \<lparr>count = 0, values_a = [''y'']\<rparr>" by (rule mx)
  qed
qed

section \<open>Properties of the description lookup\<close>







end
